theory Spec2Isabelle
  imports Main "HOL-Library.Word"
begin

section \<open>Shared data: packets\<close>

text \<open>
  The two source files are \<^verbatim>\<open>filters/audio/source_lavf.c\<close> (the decode cache) and
  \<^verbatim>\<open>audio/encoders/enc_mp3lame.c\<close> (the encoder adapter).

  Conventions of the embedding.
  \<^item> A C function that can abort (a failing \<^verbatim>\<open>assert\<close>; the assertions are taken as
    compiled in), run into undefined behaviour (a read or write outside an array, a
    division by zero, a use of a released packet) or recurse without end returns an
    \<open>option\<close>: \<open>None\<close> means "the call does not return to its caller with a defined
    result". A returned \<^verbatim>\<open>NULL\<close> packet is \<open>Some (state, None)\<close>.
  \<^item> \<^verbatim>\<open>int64_t\<close>, \<^verbatim>\<open>intptr_t\<close> and \<^verbatim>\<open>uint64_t\<close> values of the decode cache are
    \<open>int\<close>: the model agrees with the C code on every run in which no intermediate value
    leaves the 64-bit range (signed overflow is undefined in C). The sample cursor of the
    encoder adapter, which is added to an unsigned 64-bit count, is a \<open>64 word\<close>.
  \<^item> Bytes are \<open>8 word\<close>; an array is the list of its bytes.
\<close>

type_synonym uint8_t = "8 word"

text \<open>The flag bits of a packet, as a set. The sources use only \<^verbatim>\<open>AUDIO_FLAG_EOF\<close>
  (\<^verbatim>\<open>flags |= AUDIO_FLAG_EOF\<close> is insertion, \<^verbatim>\<open>flags & AUDIO_FLAG_EOF\<close> is membership).\<close>

datatype audio_flag = AUDIO_FLAG_EOF

text \<open>\<^verbatim>\<open>audio_packet_t\<close> is declared in a header outside the two files; these are the
  fields the two files read or write. \<open>data\<close> holds the \<open>size\<close> payload bytes of
  \<^verbatim>\<open>pkt->data\<close> (what lies behind them in the allocation is never written).
  The field \<^verbatim>\<open>size\<close> is called \<open>psize\<close> here.\<close>

record audio_packet_t =
  data :: "uint8_t list"
  psize :: int
  flags :: "audio_flag set"
  dts :: int
  samplecount :: int

text \<open>\<^verbatim>\<open>calloc( 1, sizeof( audio_packet_t ) )\<close>: every field zero.\<close>

definition calloc_packet :: audio_packet_t where
  "calloc_packet = \<lparr>data = [], psize = 0, flags = {}, dts = 0, samplecount = 0\<rparr>"

section \<open>The decode cache (source\_lavf.c)\<close>

text \<open>
  \<^verbatim>\<open>lavf_source_t\<close>. The handles \<^verbatim>\<open>lavf\<close>, \<^verbatim>\<open>ctx\<close> and \<^verbatim>\<open>codec\<close> belong to libavformat and
  libavcodec. \<^verbatim>\<open>decode_next_frame\<close> (with \<^verbatim>\<open>low_decode_audio\<close> and \<^verbatim>\<open>next_packet\<close>) drives
  \<^verbatim>\<open>av_read_frame\<close> and \<^verbatim>\<open>avcodec_decode_audio3\<close>; all that the cache sees of it is what it
  returns, call after call: a decoded unit, or \<^verbatim>\<open>NULL\<close> when the demuxer has no packet left
  (or fails to read). The field \<open>stream\<close> is the sequence of units it is going to return
  to this handle (a deterministic decoded source); \<^verbatim>\<open>NULL\<close> is returned once it is used
  up. After the first \<^verbatim>\<open>NULL\<close> the flag \<^verbatim>\<open>errored\<close> keeps \<^verbatim>\<open>get_samples\<close> from decoding
  again, so what the decoder would return after it is never seen. \<open>samplesize\<close> is
  \<^verbatim>\<open>h->info->samplesize\<close>.
\<close>

record lavf_source_t =
  stream :: "uint8_t list list"
  samplesize :: int
  buffer :: "uint8_t list"
  bufsize :: int
  surplus :: int
  len :: int
  bytepos :: int

text \<open>Reading \<open>n\<close> bytes at offset \<open>off\<close> of an array, and writing a block at offset
  \<open>off\<close>: the two halves of \<^verbatim>\<open>memcpy\<close>/\<^verbatim>\<open>memmove\<close>. Outside the array the behaviour is
  undefined.\<close>

definition read_bytes :: "uint8_t list \<Rightarrow> int \<Rightarrow> int \<Rightarrow> uint8_t list option" where
  "read_bytes arr off n =
     (if 0 \<le> off \<and> 0 \<le> n \<and> off + n \<le> int (length arr)
      then Some (take (nat n) (drop (nat off) arr)) else None)"

definition write_bytes :: "uint8_t list \<Rightarrow> int \<Rightarrow> uint8_t list \<Rightarrow> uint8_t list option" where
  "write_bytes arr off src =
     (if 0 \<le> off \<and> off + int (length src) \<le> int (length arr)
      then Some (take (nat off) arr @ src @ drop (nat off + length src) arr) else None)"

text \<open>\<^verbatim>\<open>memmove( arr + dst, arr + src, n )\<close> inside one array.\<close>

definition memmove :: "uint8_t list \<Rightarrow> int \<Rightarrow> int \<Rightarrow> int \<Rightarrow> uint8_t list option" where
  "memmove arr dst src n =
     (case read_bytes arr src n of None \<Rightarrow> None | Some blk \<Rightarrow> write_bytes arr dst blk)"

text \<open>C's integer division truncates towards zero; dividing by zero is undefined and is
  checked by the caller.\<close>

definition c_div :: "int \<Rightarrow> int \<Rightarrow> int" where
  "c_div a b = (if (a < 0) = (b < 0) then \<bar>a\<bar> div \<bar>b\<bar> else - (\<bar>a\<bar> div \<bar>b\<bar>))"

definition decode_next_frame :: "lavf_source_t \<Rightarrow> lavf_source_t \<times> uint8_t list option" where
  "decode_next_frame h =
     (case stream h of
        [] \<Rightarrow> (h, None)
      | dec # rest \<Rightarrow> (h\<lparr>stream := rest\<rparr>, Some dec))"

definition buffer_next_frame :: "lavf_source_t \<Rightarrow> (lavf_source_t \<times> int) option" where
  "buffer_next_frame h =
     (case decode_next_frame h of
        (h0, None) \<Rightarrow> Some (h0, 0)
      | (h0, Some dec) \<Rightarrow>
          (let dec_size = int (length dec) in
           (case (if len h0 + dec_size > bufsize h0
                  then (case memmove (buffer h0) 0 dec_size (bufsize h0 - dec_size) of
                          None \<Rightarrow> None
                        | Some b \<Rightarrow> Some (h0\<lparr>buffer := b, len := len h0 - dec_size,
                                              bytepos := bytepos h0 + dec_size\<rparr>))
                  else Some h0) of
              None \<Rightarrow> None
            | Some h1 \<Rightarrow>
                (case write_bytes (buffer h1) (len h1) dec of
                   None \<Rightarrow> None
                 | Some b \<Rightarrow> Some (h1\<lparr>buffer := b, len := len h1 + dec_size\<rparr>, 1)))))"

definition not_in_cache :: "lavf_source_t \<Rightarrow> int \<Rightarrow> int" where
  "not_in_cache h sample =
     (let samplebyte = sample * samplesize h in
      if samplebyte < bytepos h then -1
      else if samplebyte < bytepos h + len h then 0
      else 1)"

text \<open>The \<^verbatim>\<open>while\<close> loop of \<^verbatim>\<open>fill_buffer_until\<close>. It returns whether \<^verbatim>\<open>errored\<close> was set
  (the \<^verbatim>\<open>break\<close>), the cache, and the last value of \<^verbatim>\<open>ret\<close>. Every round that goes on takes a
  unit from the stream.\<close>

function fill_loop :: "lavf_source_t \<Rightarrow> int \<Rightarrow> (bool \<times> lavf_source_t \<times> int) option" where
  "fill_loop h lastsample =
     (let ret = not_in_cache h lastsample in
      if ret > 0 then
        (case buffer_next_frame h of
           None \<Rightarrow> None
         | Some (h', ok) \<Rightarrow>
             if ok = 0 then Some (True, h', ret)
             else fill_loop h' lastsample)
      else Some (False, h, ret))"
  by pat_completeness auto
termination
proof (relation "measure (\<lambda>(h, lastsample). length (stream h))")
  show "wf (measure (\<lambda>(h, lastsample). length (stream h)))" by simp
next
  fix h :: lavf_source_t and lastsample ret :: int and x2 :: "lavf_source_t \<times> int"
    and h' :: lavf_source_t and ok :: int
  assume "buffer_next_frame h = Some x2" and "(h', ok) = x2" and "ok \<noteq> 0"
  then have "length (stream h') < length (stream h)"
    by (auto simp: buffer_next_frame_def decode_next_frame_def Let_def
             split: list.splits option.splits if_splits)
  then show "((h', lastsample), (h, lastsample)) \<in> measure (\<lambda>(h, lastsample). length (stream h))"
    by simp
qed

declare fill_loop.simps [simp del]

text \<open>\<^verbatim>\<open>fill_buffer_until\<close>. The function-local \<^verbatim>\<open>static int errored\<close> is one variable of the
  program, not a field of the handle: it is passed in and returned beside the handle.\<close>

definition fill_buffer_until ::
  "bool \<Rightarrow> lavf_source_t \<Rightarrow> int \<Rightarrow> ((bool \<times> lavf_source_t) \<times> int) option" where
  "fill_buffer_until errored h lastsample =
     (if errored then Some ((errored, h), -1)
      else if not_in_cache h lastsample < 0 then Some ((errored, h), -1)
      else (case fill_loop h lastsample of
              None \<Rightarrow> None
            | Some (e', h', ret) \<Rightarrow>
                if \<not> ret \<ge> 0 then None
                else Some ((e', h'), bytepos h' + len h')))"

text \<open>The pivot of a split request (line 308).\<close>

definition split_pivot :: "lavf_source_t \<Rightarrow> int \<Rightarrow> int" where
  "split_pivot h first_sample =
     first_sample + c_div (bufsize h - surplus h * 2) (samplesize h)"

text \<open>The \<^verbatim>\<open>else\<close> branch of \<^verbatim>\<open>get_samples\<close> (lines 338 to 353): the request fits, the cache
  is filled up to \<open>last_sample\<close> and the bytes are copied out of the buffer.\<close>

definition copy_from_cache ::
  "bool \<Rightarrow> lavf_source_t \<Rightarrow> audio_packet_t \<Rightarrow> int \<Rightarrow> int \<Rightarrow>
     ((bool \<times> lavf_source_t) \<times> audio_packet_t option) option" where
  "copy_from_cache e1 h1 pkt first_sample last_sample =
     (let lastreq = last_sample * samplesize h1 in
      case fill_buffer_until e1 h1 last_sample of
        None \<Rightarrow> None
      | Some ((e2, h2), lastavail) \<Rightarrow>
          if lastavail < 0 then Some ((e2, h2), None)
          else
            (let start = (first_sample * samplesize h2) - bytepos h2;
                 pkt' = (if lastavail < lastreq
                         then pkt\<lparr>psize := lastavail - bytepos h2 - start,
                                  flags := {AUDIO_FLAG_EOF}\<rparr>
                         else pkt) in
             if \<not> (start + psize pkt' \<le> bufsize h2) then None
             else
               (case read_bytes (buffer h2) start (psize pkt') of
                  None \<Rightarrow> None
                | Some bytes \<Rightarrow> Some ((e2, h2), Some (pkt'\<lparr>data := bytes\<rparr>)))))"

text \<open>\<^verbatim>\<open>get_samples\<close>. The result is the pair of \<^verbatim>\<open>errored\<close> and the handle after the call,
  with the packet (\<open>None\<close> for \<^verbatim>\<open>NULL\<close>). The packet \<open>pkt\<close> is allocated with room for
  the whole request; the two \<^verbatim>\<open>memcpy\<close> of the split branch stay inside it only if the two
  halves together are no longer than that.\<close>

partial_function (option) get_samples ::
  "bool \<Rightarrow> lavf_source_t \<Rightarrow> int \<Rightarrow> int \<Rightarrow> ((bool \<times> lavf_source_t) \<times> audio_packet_t option) option"
where
  "get_samples errored h first_sample last_sample =
     (if \<not> (first_sample \<ge> 0 \<and> last_sample > first_sample) then None
      else
        Option.bind (fill_buffer_until errored h first_sample) (\<lambda>((e1, h1), r1).
          if r1 < 0 then Some ((e1, h1), None)
          else
            (let pkt = calloc_packet\<lparr>psize := (last_sample - first_sample) * samplesize h1\<rparr> in
             if psize pkt + surplus h1 > bufsize h1 then
               (if samplesize h1 = 0 then None
                else
                  (let pivot = split_pivot h1 first_sample;
                       expected_size = (pivot - first_sample) * samplesize h1 in
                   Option.bind (get_samples e1 h1 first_sample pivot) (\<lambda>((e2, h2), prev_opt).
                     (case prev_opt of
                        None \<Rightarrow> Some ((e2, h2), None)
                      | Some prev \<Rightarrow>
                          if psize prev < expected_size
                          then Some ((e2, h2), Some (prev\<lparr>flags := flags prev \<union> {AUDIO_FLAG_EOF}\<rparr>))
                          else if psize prev \<noteq> expected_size then None
                          else
                            Option.bind (get_samples e2 h2 pivot last_sample) (\<lambda>((e3, h3), next_opt).
                              (case next_opt of
                                 None \<Rightarrow> Some ((e3, h3), None)
                               | Some nxt \<Rightarrow>
                                   if psize prev + psize nxt > psize pkt then None
                                   else Some ((e3, h3),
                                          Some (pkt\<lparr>data := data prev @ data nxt,
                                                    psize := psize prev + psize nxt\<rparr>))))))))
             else copy_from_cache e1 h1 pkt first_sample last_sample)))"

declare get_samples.simps [code]



text \<open>A run of requests on one handle, each on the state the one before left.\<close>

fun run_requests :: "bool \<Rightarrow> lavf_source_t \<Rightarrow> (int \<times> int) list \<Rightarrow> (bool \<times> lavf_source_t) option" where
  "run_requests e h [] = Some (e, h)"
| "run_requests e h ((first_sample, last_sample) # reqs) =
     (case get_samples e h first_sample last_sample of
        None \<Rightarrow> None
      | Some ((e', h'), pkt) \<Rightarrow> run_requests e' h' reqs)"

subsection \<open>What a handle must satisfy, and what the cache stands for\<close>

text \<open>What \<^verbatim>\<open>init\<close> sets up: the buffer is an array of \<open>bufsize\<close> bytes
  (\<^verbatim>\<open>av_malloc( h->bufsize )\<close>) of which the first \<open>len\<close> are in use (\<open>len = 0\<close> and
  \<open>bytepos = 0\<close> at first), a sample frame has at least one byte, and the surplus
  (\<^verbatim>\<open>framesize * 3 / 2\<close>) is not negative.\<close>

definition cache_ok :: "lavf_source_t \<Rightarrow> bool" where
  "cache_ok h \<longleftrightarrow>
     int (length (buffer h)) = bufsize h \<and> 0 \<le> len h \<and> len h \<le> bufsize h \<and> 0 \<le> bytepos h \<and>
     0 < samplesize h \<and> 0 \<le> surplus h"

text \<open>The bytes in the window, and all the decoded bytes from \<open>bytepos\<close> on: those in the
  window followed by those the decoder has still to deliver.\<close>

definition window :: "lavf_source_t \<Rightarrow> uint8_t list" where
  "window h = take (nat (len h)) (buffer h)"

definition avail :: "lavf_source_t \<Rightarrow> uint8_t list" where
  "avail h = window h @ concat (stream h)"




text \<open>\<open>advances h h'\<close>: \<open>h'\<close> is a later state of the cache \<open>h\<close>. The parameters are the
  same, the window has only moved forward and the decoded stream is the same one.\<close>

definition advances :: "lavf_source_t \<Rightarrow> lavf_source_t \<Rightarrow> bool" where
  "advances h h' \<longleftrightarrow>
     cache_ok h' \<and> samplesize h' = samplesize h \<and> bufsize h' = bufsize h \<and>
     surplus h' = surplus h \<and> bytepos h \<le> bytepos h' \<and>
     avail h' = drop (nat (bytepos h' - bytepos h)) (avail h)"

text \<open>The bytes of the samples \<open>[first_sample, last_sample)\<close> in the decoded stream, as
  far as the stream goes.\<close>

definition stream_bytes :: "lavf_source_t \<Rightarrow> int \<Rightarrow> int \<Rightarrow> uint8_t list" where
  "stream_bytes h first_sample last_sample =
     take (nat ((last_sample - first_sample) * samplesize h))
       (drop (nat (first_sample * samplesize h - bytepos h)) (avail h))"



text \<open>\<open>served h first_sample last_sample y\<close>: the result \<open>y\<close> of a request on the
  cache \<open>h\<close> leaves a later state of the same cache, and a packet it carries holds the
  bytes of the requested samples, as far as the stream goes.\<close>

definition served ::
  "lavf_source_t \<Rightarrow> int \<Rightarrow> int \<Rightarrow> ((bool \<times> lavf_source_t) \<times> audio_packet_t option) \<Rightarrow> bool" where
  "served h f l y \<longleftrightarrow>
     (case y of ((e', h'), r) \<Rightarrow>
        advances h h' \<and> 0 \<le> f \<and> f < l \<and>
        (case r of None \<Rightarrow> True
         | Some p \<Rightarrow> bytepos h \<le> f * samplesize h \<and> data p = stream_bytes h f l \<and>
             psize p = int (length (data p)) \<and> psize p \<le> (l - f) * samplesize h \<and> dts p = 0))"


subsection \<open>Small handles for the worked examples\<close>

text \<open>A cache of eight bytes over a stream of one-byte sample frames, decoded two bytes
  at a time: the bytes \<open>1, 2\<close> are in the window, \<open>3\<close> to \<open>14\<close> are still to be decoded.
  \<open>cache8_b\<close> and \<open>cache8_c\<close> are later states of it.\<close>

definition cache8 :: lavf_source_t where
  "cache8 = \<lparr>stream = [[3, 4], [5, 6], [7, 8], [9, 10], [11, 12], [13, 14]], samplesize = 1,
     buffer = [1, 2, 0, 0, 0, 0, 0, 0], bufsize = 8, surplus = 2, len = 2, bytepos = 0\<rparr>"

definition cache8_b :: lavf_source_t where
  "cache8_b = \<lparr>stream = [[5, 6], [7, 8], [9, 10], [11, 12], [13, 14]], samplesize = 1,
     buffer = [1, 2, 3, 4, 0, 0, 0, 0], bufsize = 8, surplus = 2, len = 4, bytepos = 0\<rparr>"

definition cache8_c :: lavf_source_t where
  "cache8_c = \<lparr>stream = [[13, 14]], samplesize = 1,
     buffer = [5, 6, 7, 8, 9, 10, 11, 12], bufsize = 8, surplus = 2, len = 8, bytepos = 4\<rparr>"

text \<open>A packet as \<^verbatim>\<open>get_samples\<close> returns it when the stream has not ended: the payload and
  its length, every other field zero.\<close>

definition payload_packet :: "uint8_t list \<Rightarrow> audio_packet_t" where
  "payload_packet bytes = calloc_packet\<lparr>data := bytes, psize := int (length bytes)\<rparr>"

text \<open>\<open>cache8\<close> at the end of its stream: nothing is left to decode.\<close>

definition cache8_end :: lavf_source_t where
  "cache8_end = cache8\<lparr>stream := []\<rparr>"

text \<open>A cache of thirteen bytes over sample frames of three bytes, decoded one frame at
  a time (\<open>surplus = 3 * 3 div 2\<close>), and the states that the requests for the samples
  \<open>[0, 1)\<close> and then \<open>[1, 4)\<close> leave.\<close>

definition cache13 :: lavf_source_t where
  "cache13 = \<lparr>stream = [[4, 5, 6], [7, 8, 9], [10, 11, 12], [13, 14, 15]], samplesize = 3,
     buffer = [1, 2, 3, 0, 0, 0, 0, 0, 0, 0, 0, 0, 0], bufsize = 13, surplus = 4, len = 3,
     bytepos = 0\<rparr>"

definition cache13_a :: lavf_source_t where
  "cache13_a = \<lparr>stream = [[7, 8, 9], [10, 11, 12], [13, 14, 15]], samplesize = 3,
     buffer = [1, 2, 3, 4, 5, 6, 0, 0, 0, 0, 0, 0, 0], bufsize = 13, surplus = 4, len = 6,
     bytepos = 0\<rparr>"

definition cache13_b :: lavf_source_t where
  "cache13_b = \<lparr>stream = [], samplesize = 3,
     buffer = [4, 5, 6, 7, 8, 9, 10, 11, 12, 13, 14, 15, 0], bufsize = 13, surplus = 4,
     len = 12, bytepos = 3\<rparr>"

text \<open>A cache of fifteen bytes over one-byte sample frames, decoded four bytes at a time
  (\<open>surplus = 4 * 3 div 2\<close>).\<close>

definition cache15 :: lavf_source_t where
  "cache15 = \<lparr>stream = [[4, 5, 6, 7], [8, 9, 10, 11], [12, 13, 14, 15], [16, 17, 18, 19]],
     samplesize = 1, buffer = [0, 1, 2, 3, 0, 0, 0, 0, 0, 0, 0, 0, 0, 0, 0], bufsize = 15,
     surplus = 6, len = 4, bytepos = 0\<rparr>"

text \<open>The states of \<open>cache15\<close> after the request \<open>[3, 5)\<close> and after the request
  \<open>[5, 12)\<close> that follows it.\<close>

definition cache15_a :: lavf_source_t where
  "cache15_a = \<lparr>stream = [[8, 9, 10, 11], [12, 13, 14, 15], [16, 17, 18, 19]],
     samplesize = 1, buffer = [0, 1, 2, 3, 4, 5, 6, 7, 0, 0, 0, 0, 0, 0, 0], bufsize = 15,
     surplus = 6, len = 8, bytepos = 0\<rparr>"

definition cache15_b :: lavf_source_t where
  "cache15_b = \<lparr>stream = [[16, 17, 18, 19]],
     samplesize = 1, buffer = [4, 5, 6, 7, 8, 9, 10, 11, 12, 13, 14, 15, 0, 0, 0], bufsize = 15,
     surplus = 6, len = 12, bytepos = 4\<rparr>"

text \<open>The parameters \<^verbatim>\<open>init\<close> computes for two channels of 16-bit samples and a decoder
  frame of 1024 samples, with \<^verbatim>\<open>AVCODEC_MAX_AUDIO_FRAME_SIZE = 192000\<close>: \<open>samplesize = 4\<close>,
  \<open>bufsize = 2 * 192000\<close>, \<open>surplus = 1024 * 4 * 3 div 2\<close>. 93 units of 4096 bytes (of
  silence) have been decoded and one more is to come.\<close>

definition cache_2ch :: lavf_source_t where
  "cache_2ch = \<lparr>stream = [replicate 4096 0], samplesize = 4, buffer = replicate 384000 0,
     bufsize = 384000, surplus = 6144, len = 380928, bytepos = 0\<rparr>"


text \<open>The parameters \<^verbatim>\<open>init\<close> computes for seven channels of 16-bit samples and a
  decoder frame of 1024 samples, with \<^verbatim>\<open>AVCODEC_MAX_AUDIO_FRAME_SIZE = 192000\<close>:
  \<open>samplesize = 14\<close>, \<open>bufsize = 2 * 192000\<close>, \<open>surplus = 1024 * 14 * 3 div 2\<close>.\<close>

definition cache_7ch :: lavf_source_t where
  "cache_7ch = \<lparr>stream = [], samplesize = 14, buffer = replicate 384000 0, bufsize = 384000,
     surplus = 21504, len = 0, bytepos = 0\<rparr>"


section \<open>The encoder adapter (enc\_mp3lame.c)\<close>

text \<open>The pointer \<^verbatim>\<open>h->in\<close>: \<^verbatim>\<open>NULL\<close>, a packet the adapter holds, or the address of a
  packet that has been released (\<^verbatim>\<open>x264_af_free_packet\<close> frees the packet and leaves the
  pointer as it is).\<close>

datatype packet_ref = Null | Live audio_packet_t | Dangling

text \<open>\<^verbatim>\<open>x264_af_free_packet\<close> is not in the two files. It is called with \<^verbatim>\<open>NULL\<close> on the
  first \<^verbatim>\<open>get_next_packet\<close>, so it accepts \<^verbatim>\<open>NULL\<close>; releasing a packet twice is undefined.
  The result is what the pointer variable refers to afterwards.\<close>

definition af_free_packet :: "packet_ref \<Rightarrow> packet_ref option" where
  "af_free_packet r = (case r of Null \<Rightarrow> Some Null | Live p \<Rightarrow> Some Dangling | Dangling \<Rightarrow> None)"

text \<open>
  The collaborators of the adapter, which are outside the repository or outside the two
  files: the upstream filter chain (\<^verbatim>\<open>x264_af_get_samples\<close>, on a state \<open>'u\<close>) and the LAME
  encoder (\<^verbatim>\<open>lame_encode_buffer_float\<close> and \<^verbatim>\<open>lame_encode_flush\<close>, on a state \<open>'l\<close>). An
  encode call gets the encoder, the input packet (for \<^verbatim>\<open>samples[0]\<close>, \<^verbatim>\<open>samples[1]\<close> and
  \<^verbatim>\<open>samplecount\<close>) and the capacity of the output buffer; it returns the encoder, its
  return value and the bytes it wrote.
\<close>

record ('u, 'l) collaborators =
  af_get_samples :: "'u \<Rightarrow> 64 word \<Rightarrow> 64 word \<Rightarrow> 'u \<times> audio_packet_t option"
  lame_encode_buffer_float :: "'l \<Rightarrow> audio_packet_t \<Rightarrow> nat \<Rightarrow> 'l \<times> int \<times> uint8_t list"
  lame_encode_flush :: "'l \<Rightarrow> nat \<Rightarrow> 'l \<times> int \<times> uint8_t list"

text \<open>\<^verbatim>\<open>enc_lame_t\<close>. \<open>framelen\<close> is \<^verbatim>\<open>h->info.framelen\<close>, the only field of \<^verbatim>\<open>info\<close> that
  the functions below read; \<^verbatim>\<open>bufsize\<close> is called \<open>out_bufsize\<close> and \<^verbatim>\<open>in\<close> is called
  \<open>in_pkt\<close>.\<close>

record ('u, 'l) enc_lame_t =
  framelen :: int
  filter_chain :: 'u
  packet_count :: "64 word"
  finishing :: int
  lame :: 'l
  last_sample :: "64 word"
  out_bufsize :: nat
  in_pkt :: packet_ref

text \<open>The label \<^verbatim>\<open>error\<close> of \<^verbatim>\<open>get_next_packet\<close>: both packets are released and \<^verbatim>\<open>NULL\<close> is
  returned.\<close>

definition error_exit ::
  "('u, 'l) enc_lame_t \<Rightarrow> (('u, 'l) enc_lame_t \<times> audio_packet_t option) option" where
  "error_exit h =
     (case af_free_packet (in_pkt h) of
        None \<Rightarrow> None
      | Some r \<Rightarrow> Some (h\<lparr>in_pkt := r\<rparr>, None))"

text \<open>The test \<^verbatim>\<open>h->in && h->in->flags & AUDIO_FLAG_EOF\<close>; reading the flags of a
  released packet is undefined.\<close>

definition holds_eof :: "packet_ref \<Rightarrow> bool option" where
  "holds_eof r =
     (case r of Null \<Rightarrow> Some False | Live p \<Rightarrow> Some (AUDIO_FLAG_EOF \<in> flags p) | Dangling \<Rightarrow> None)"

text \<open>The \<^verbatim>\<open>while( !out->size )\<close> loop of \<^verbatim>\<open>get_next_packet\<close>, on the adapter and the packet
  \<open>out\<close>. Nothing bounds the number of rounds.\<close>

partial_function (option) encode_loop ::
  "('u, 'l) collaborators \<Rightarrow> ('u, 'l) enc_lame_t \<Rightarrow> audio_packet_t \<Rightarrow>
     (('u, 'l) enc_lame_t \<times> audio_packet_t option) option"
where
  "encode_loop w h out =
     (if psize out \<noteq> 0 then Some (h, Some out)
      else
        (case holds_eof (in_pkt h) of
           None \<Rightarrow> None
         | Some eof \<Rightarrow>
             if eof then error_exit (h\<lparr>finishing := 1\<rparr>)
             else
             (case af_free_packet (in_pkt h) of
                None \<Rightarrow> None
              | Some r \<Rightarrow>
                  (case af_get_samples w (filter_chain h) (last_sample h)
                          (last_sample h + word_of_int (framelen h)) of
                     (u, None) \<Rightarrow> error_exit (h\<lparr>filter_chain := u, in_pkt := Null\<rparr>)
                   | (u, Some q) \<Rightarrow>
                       (case lame_encode_buffer_float w (lame h) q (out_bufsize h) of
                          (l, n, bytes) \<Rightarrow>
                            encode_loop w
                              (h\<lparr>filter_chain := u, in_pkt := Live q,
                                  last_sample := last_sample h + word_of_int (samplecount q),
                                  lame := l\<rparr>)
                              (out\<lparr>dts := sint (last_sample h), psize := n, data := bytes\<rparr>))))))"

declare encode_loop.simps [code]

definition get_next_packet ::
  "('u, 'l) collaborators \<Rightarrow> ('u, 'l) enc_lame_t \<Rightarrow>
     (('u, 'l) enc_lame_t \<times> audio_packet_t option) option" where
  "get_next_packet w h =
     (if finishing h \<noteq> 0 then Some (h, None)
      else encode_loop w h calloc_packet)"

definition skip_samples :: "('u, 'l) enc_lame_t \<Rightarrow> 64 word \<Rightarrow> ('u, 'l) enc_lame_t" where
  "skip_samples h samplecount' = h\<lparr>last_sample := last_sample h + samplecount'\<rparr>"

definition finish ::
  "('u, 'l) collaborators \<Rightarrow> ('u, 'l) enc_lame_t \<Rightarrow>
     (('u, 'l) enc_lame_t \<times> audio_packet_t option) option" where
  "finish w h =
     (case in_pkt h of
        Live p \<Rightarrow>
          (let h1 = h\<lparr>finishing := finishing h + 1\<rparr>;
               out = calloc_packet\<lparr>dts := sint (last_sample h1 +
                                               word_of_int (samplecount p * finishing h1))\<rparr>
           in case lame_encode_flush w (lame h1) (out_bufsize h1) of
                (l, n, bytes) \<Rightarrow>
                  if n = 0 then Some (h1\<lparr>lame := l\<rparr>, None)
                  else Some (h1\<lparr>lame := l\<rparr>, Some (out\<lparr>data := bytes, psize := n\<rparr>)))
      | _ \<Rightarrow> None)"


subsection \<open>The running loop, as the specification words it\<close>

text \<open>
  \<open>running_pulls w h r\<close> follows the specification of the Running state, not the code:
  the adapter pulls the window \<open>[last_sample, last_sample + framelen)\<close> from upstream, again
  and again, until the encode call returns something other than zero or upstream has
  signalled the end of the stream (the packet it holds carries the flag) or fails; every
  pull that succeeds moves \<open>last_sample\<close> forward by the \<open>samplecount\<close> of the packet it
  returned. \<open>r\<close> is the adapter after the call with the packet returned (\<open>None\<close> for the end
  signal).
\<close>

definition pull_window ::
  "('u, 'l) collaborators \<Rightarrow> ('u, 'l) enc_lame_t \<Rightarrow> 'u \<times> audio_packet_t option" where
  "pull_window w h =
     af_get_samples w (filter_chain h) (last_sample h) (last_sample h + word_of_int (framelen h))"

definition after_pull ::
  "('u, 'l) enc_lame_t \<Rightarrow> 'u \<Rightarrow> audio_packet_t \<Rightarrow> 'l \<Rightarrow> ('u, 'l) enc_lame_t" where
  "after_pull h u q l =
     h\<lparr>filter_chain := u, in_pkt := Live q,
       last_sample := last_sample h + word_of_int (samplecount q), lame := l\<rparr>"

inductive running_pulls ::
  "('u, 'l) collaborators \<Rightarrow> ('u, 'l) enc_lame_t \<Rightarrow>
     (('u, 'l) enc_lame_t \<times> audio_packet_t option) \<Rightarrow> bool"
  for w :: "('u, 'l) collaborators"
where
  end_of_stream:
    "in_pkt h = Live p \<Longrightarrow> AUDIO_FLAG_EOF \<in> flags p \<Longrightarrow>
     running_pulls w h (h\<lparr>finishing := 1, in_pkt := Dangling\<rparr>, None)"
| upstream_fails:
    "holds_eof (in_pkt h) = Some False \<Longrightarrow> pull_window w h = (u, None) \<Longrightarrow>
     running_pulls w h (h\<lparr>filter_chain := u, in_pkt := Null\<rparr>, None)"
| encoded:
    "holds_eof (in_pkt h) = Some False \<Longrightarrow> pull_window w h = (u, Some q) \<Longrightarrow>
     lame_encode_buffer_float w (lame h) q (out_bufsize h) = (l, n, bytes) \<Longrightarrow> n \<noteq> 0 \<Longrightarrow>
     running_pulls w h
       (after_pull h u q l,
        Some (calloc_packet\<lparr>dts := sint (last_sample h), psize := n, data := bytes\<rparr>))"
| pull_again:
    "holds_eof (in_pkt h) = Some False \<Longrightarrow> pull_window w h = (u, Some q) \<Longrightarrow>
     lame_encode_buffer_float w (lame h) q (out_bufsize h) = (l, 0, bytes) \<Longrightarrow>
     running_pulls w (after_pull h u q l) r \<Longrightarrow>
     running_pulls w h r"

subsection \<open>A small upstream and encoder for the worked examples\<close>

text \<open>The upstream state counts the pulls. The first pull returns the whole window, the
  second a short packet with the end-of-stream flag, and any later one fails. The encoder
  state counts the encode calls: the first one buffers its input and returns no byte,
  every later one returns three bytes.\<close>

definition demo_world :: "(nat, nat) collaborators" where
  "demo_world =
     \<lparr>af_get_samples = (\<lambda>u first_sample last_sample'.
          (Suc u,
           if u = 0 then Some (calloc_packet\<lparr>samplecount := sint (last_sample' - first_sample)\<rparr>)
           else if u = 1 then Some (calloc_packet\<lparr>samplecount := 2, flags := {AUDIO_FLAG_EOF}\<rparr>)
           else None)),
      lame_encode_buffer_float = (\<lambda>l q cap.
          (Suc l, if l = 0 then 0 else 3, if l = 0 then [] else [1, 2, 3])),
      lame_encode_flush = (\<lambda>l cap. (l, 2, [9, 9]))\<rparr>"

text \<open>The adapter as \<^verbatim>\<open>init\<close> leaves it (with a frame of four samples), after its first
  \<^verbatim>\<open>get_next_packet\<close>, and after its second.\<close>

definition demo_enc :: "(nat, nat) enc_lame_t" where
  "demo_enc = \<lparr>framelen = 4, filter_chain = 0, packet_count = 0, finishing = 0, lame = 0,
     last_sample = 0, out_bufsize = 7205, in_pkt = Null\<rparr>"

definition demo_enc1 :: "(nat, nat) enc_lame_t" where
  "demo_enc1 = \<lparr>framelen = 4, filter_chain = 2, packet_count = 0, finishing = 0, lame = 2,
     last_sample = 6, out_bufsize = 7205,
     in_pkt = Live (calloc_packet\<lparr>samplecount := 2, flags := {AUDIO_FLAG_EOF}\<rparr>)\<rparr>"

definition demo_enc2 :: "(nat, nat) enc_lame_t" where
  "demo_enc2 = demo_enc1\<lparr>finishing := 1, in_pkt := Dangling\<rparr>"

definition demo_out :: audio_packet_t where
  "demo_out = calloc_packet\<lparr>dts := 4, psize := 3, data := [1, 2, 3]\<rparr>"

section \<open>Properties of the decode cache\<close>


lemma advances_refl: "cache_ok h \<Longrightarrow> advances h h"
  by (simp add: advances_def)

lemma advances_trans: "advances h1 h2 \<Longrightarrow> advances h2 h3 \<Longrightarrow> advances h1 h3"
  by (auto simp: advances_def nat_add_distrib [symmetric] add.commute)

lemma buffer_next_frame_fail:
  "buffer_next_frame h = Some (h', 0) \<Longrightarrow> h' = h \<and> stream h = []"
  by (auto simp: buffer_next_frame_def decode_next_frame_def Let_def
           split: list.splits option.splits if_splits)

lemma evict_bytes:
  assumes "int (length buf) = B" "0 \<le> L" "L \<le> B" "L + int (length dec) > B"
    and "memmove buf 0 (int (length dec)) (B - int (length dec)) = Some b1"
    and "write_bytes b1 (L - int (length dec)) dec = Some b2"
  shows "take (nat L) b2 = drop (length dec) (take (nat L) buf) @ dec \<and> length b2 = length buf
     \<and> length dec \<le> nat L"
  using assms
  apply (auto simp: memmove_def read_bytes_def write_bytes_def split: if_splits option.splits)
  apply (metis assms(2) drop_take nat_diff_distrib' nat_int of_nat_0_le_iff)
  done

lemma append_bytes:
  assumes "int (length buf) = B" "0 \<le> L" "L \<le> B"
    and "write_bytes buf L dec = Some b2"
  shows "take (nat (L + int (length dec))) b2 = take (nat L) buf @ dec \<and> length b2 = length buf"
  using assms
  by (auto simp: write_bytes_def split: if_splits option.splits)

lemma buffer_next_frame_step:
  assumes ok: "cache_ok h" and run: "buffer_next_frame h = Some (h', r)" and r: "r \<noteq> 0"
  shows "\<exists>dec rest. stream h = dec # rest \<and> stream h' = rest \<and> cache_ok h' \<and>
           samplesize h' = samplesize h \<and> bufsize h' = bufsize h \<and> surplus h' = surplus h \<and>
           (if len h + int (length dec) > bufsize h
            then bytepos h' = bytepos h + int (length dec) \<and> len h' = len h \<and>
                 length dec \<le> nat (len h) \<and>
                 window h' = drop (length dec) (window h) @ dec
            else bytepos h' = bytepos h \<and> len h' = len h + int (length dec) \<and>
                 window h' = window h @ dec)"
proof -
  from run r obtain dec rest where s: "stream h = dec # rest"
    by (cases "stream h") (auto simp: buffer_next_frame_def decode_next_frame_def)
  show ?thesis
  proof (cases "len h + int (length dec) > bufsize h")
    case True
    with run s obtain b1 b2 where
      m: "memmove (buffer h) 0 (int (length dec)) (bufsize h - int (length dec)) = Some b1"
      and w: "write_bytes b1 (len h - int (length dec)) dec = Some b2"
      and h': "h' = h\<lparr>stream := rest, buffer := b2, len := len h, bytepos := bytepos h + int (length dec)\<rparr>"
      by (auto simp: buffer_next_frame_def decode_next_frame_def Let_def
               split: option.splits)
    from ok have "int (length (buffer h)) = bufsize h" "0 \<le> len h" "len h \<le> bufsize h"
      by (simp_all add: cache_ok_def)
    from evict_bytes [OF this True m w] ok True s show ?thesis
      by (simp add: h' cache_ok_def window_def)
  next
    case False
    with run s obtain b2 where
      w: "write_bytes (buffer h) (len h) dec = Some b2"
      and h': "h' = h\<lparr>stream := rest, buffer := b2, len := len h + int (length dec)\<rparr>"
      by (auto simp: buffer_next_frame_def decode_next_frame_def Let_def
               split: option.splits)
    from ok have "int (length (buffer h)) = bufsize h" "0 \<le> len h" "len h \<le> bufsize h"
      by (simp_all add: cache_ok_def)
    from append_bytes [OF this w] ok False s show ?thesis
      by (simp add: h' cache_ok_def window_def)
  qed
qed

lemma buffer_next_frame_advances:
  assumes ok: "cache_ok h" and run: "buffer_next_frame h = Some (h', r)" and r: "r \<noteq> 0"
  shows "advances h h' \<and> bytepos h + len h \<le> bytepos h' + len h'"
proof -
  from buffer_next_frame_step [OF assms] obtain dec rest where
    s: "stream h = dec # rest" "stream h' = rest" "cache_ok h'"
       "samplesize h' = samplesize h" "bufsize h' = bufsize h" "surplus h' = surplus h"
    and c: "if len h + int (length dec) > bufsize h
            then bytepos h' = bytepos h + int (length dec) \<and> len h' = len h \<and>
                 length dec \<le> nat (len h) \<and>
                 window h' = drop (length dec) (window h) @ dec
            else bytepos h' = bytepos h \<and> len h' = len h + int (length dec) \<and>
                 window h' = window h @ dec"
    by blast
  have "length (window h) = nat (len h)"
    using ok by (auto simp: window_def cache_ok_def)
  with s c show ?thesis
    by (auto simp: advances_def avail_def split: if_splits)
qed

lemma fill_loop_sound:
  "cache_ok h \<Longrightarrow> fill_loop h s = Some (e', h', ret) \<Longrightarrow>
     advances h h' \<and> bytepos h + len h \<le> bytepos h' + len h' \<and>
     (if e' then stream h' = [] \<and> not_in_cache h' s > 0 \<and> ret > 0
      else ret = not_in_cache h' s \<and> ret \<le> 0)"
proof (induction h s rule: fill_loop.induct)
  case (1 h lastsample)
  show ?case
  proof (cases "not_in_cache h lastsample > 0")
    case False
    with "1.prems" show ?thesis
      by (auto simp: fill_loop.simps [of h lastsample] Let_def advances_refl)
  next
    case True
    with "1.prems"(2) obtain h1 r where b: "buffer_next_frame h = Some (h1, r)"
      and rest: "(if r = 0 then Some (True, h1, not_in_cache h lastsample) else fill_loop h1 lastsample) = Some (e', h', ret)"
      by (auto simp: fill_loop.simps [of h lastsample] Let_def split: option.splits)
    show ?thesis
    proof (cases "r = 0")
      case r0: True
      with b have "h1 = h" "stream h = []" using buffer_next_frame_fail by blast+
      with rest r0 True "1.prems"(1) show ?thesis by (auto simp: advances_refl)
    next
      case r1: False
      from buffer_next_frame_advances [OF "1.prems"(1) b r1]
      have a: "advances h h1" "bytepos h + len h \<le> bytepos h1 + len h1" by simp_all
      then have ok1: "cache_ok h1" by (simp add: advances_def)
      from rest r1 have "fill_loop h1 lastsample = Some (e', h', ret)" by simp
      from "1.IH" [OF refl True b refl r1 ok1 this] a show ?thesis
        using advances_trans by fastforce
    qed
  qed
qed

lemma fill_buffer_until_sound:
  assumes "cache_ok h" and "fill_buffer_until e h s = Some ((e', h'), r)"
  shows "advances h h' \<and>
     (if r < 0 then h' = h \<and> e' = e \<and> (e \<or> s * samplesize h < bytepos h)
      else \<not> e \<and> r = bytepos h' + len h' \<and> bytepos h \<le> s * samplesize h \<and>
           bytepos h + len h \<le> r \<and>
           (if e' then stream h' = [] \<and> r \<le> s * samplesize h
            else bytepos h' \<le> s * samplesize h \<and> s * samplesize h < r))"
proof (cases "e \<or> not_in_cache h s < 0")
  case True
  with assms show ?thesis
    by (auto simp: fill_buffer_until_def advances_refl not_in_cache_def Let_def split: if_splits)
next
  case False
  with assms(2) obtain ret where f: "fill_loop h s = Some (e', h', ret)" and ret: "ret \<ge> 0"
    and r: "r = bytepos h' + len h'"
    by (auto simp: fill_buffer_until_def split: option.splits if_splits)
  note fl = fill_loop_sound [OF assms(1) f]
  from fl have a: "advances h h'" "bytepos h + len h \<le> bytepos h' + len h'"
    by blast+
  from fl have c: "if e' then stream h' = [] \<and> not_in_cache h' s > 0 \<and> ret > 0
      else ret = not_in_cache h' s \<and> ret \<le> 0" by blast
  from a have ok': "cache_ok h'" and ss: "samplesize h' = samplesize h"
    by (simp_all add: advances_def)
  from ok' have nn: "0 \<le> bytepos h' + len h'" by (simp add: cache_ok_def)
  from False have b: "bytepos h \<le> s * samplesize h"
    by (auto simp: not_in_cache_def Let_def split: if_splits)
  from c ret ss have "if e' then stream h' = [] \<and> r \<le> s * samplesize h
            else bytepos h' \<le> s * samplesize h \<and> s * samplesize h < r"
    by (auto simp: r not_in_cache_def Let_def split: if_splits)
  with a b False nn r show ?thesis by auto
qed


lemma take_drop_window:
  "n + k \<le> m \<Longrightarrow> m \<le> length xs \<Longrightarrow> take n (drop k (take m xs @ ys)) = take n (drop k xs)"
  by (simp add: drop_take min_absorb2)

lemma copy_from_cache_sound:
  assumes ok: "cache_ok h1"
    and pk: "psize pkt = (l - f) * samplesize h1"
    and run: "copy_from_cache e1 h1 pkt f l = Some ((e2, h2), r)"
  shows "advances h1 h2 \<and>
     (\<forall>p. r = Some p \<longrightarrow> data p = stream_bytes h1 f l \<and> psize p = int (length (data p)) \<and>
        psize p \<le> (l - f) * samplesize h1 \<and> dts p = dts pkt)"
proof -
  from run obtain lastavail where
    fb: "fill_buffer_until e1 h1 l = Some ((e2, h2), lastavail)"
    by (auto simp: copy_from_cache_def Let_def split: option.splits if_splits)
  note snd = fill_buffer_until_sound [OF ok fb]
  then have adv: "advances h1 h2" by blast
  then have ok2: "cache_ok h2" and ss: "samplesize h2 = samplesize h1"
    and bs: "bufsize h2 = bufsize h1" and bp: "bytepos h1 \<le> bytepos h2"
    and av: "avail h2 = drop (nat (bytepos h2 - bytepos h1)) (avail h1)"
    by (simp_all add: advances_def)
  show ?thesis
  proof (cases "lastavail < 0")
    case True
    with run fb adv show ?thesis by (simp add: copy_from_cache_def)
  next
    case nonneg: False
    define start where "start = f * samplesize h1 - bytepos h2"
    from ok2 have lb: "int (length (buffer h2)) = bufsize h2" and l0: "0 \<le> len h2"
      and lle: "len h2 \<le> bufsize h2"
      by (simp_all add: cache_ok_def)
    from snd nonneg have la: "lastavail = bytepos h2 + len h2" by simp
    show ?thesis
    proof (cases "lastavail < l * samplesize h1")
      case eof: True
      with snd nonneg have e2: "e2" and st: "stream h2 = []"
        by (auto split: if_splits)
      from run fb nonneg eof obtain bytes where
        rd: "read_bytes (buffer h2) start (len h2 - start) = Some bytes"
        and r: "r = Some (pkt\<lparr>psize := len h2 - start, flags := {AUDIO_FLAG_EOF}, data := bytes\<rparr>)"
        by (auto simp: copy_from_cache_def Let_def ss la start_def split: option.splits if_splits)
      from rd have s0: "0 \<le> start" and s1: "start \<le> len h2"
        and bytes: "bytes = take (nat (len h2 - start)) (drop (nat start) (buffer h2))"
        by (auto simp: read_bytes_def split: if_splits)
      have "bytes = drop (nat start) (window h2)"
        using s0 s1 by (simp add: bytes window_def drop_take nat_diff_distrib)
      also have "\<dots> = drop (nat start) (avail h2)"
        by (simp add: avail_def st)
      also have "\<dots> = drop (nat (f * samplesize h1 - bytepos h1)) (avail h1)"
        using s0 bp by (simp add: av start_def nat_add_distrib [symmetric])
      finally have b1: "bytes = drop (nat (f * samplesize h1 - bytepos h1)) (avail h1)" .
      have len_b: "int (length bytes) = len h2 - start"
        using s0 s1 lb lle by (simp add: bytes)
      have short: "len h2 - start \<le> (l - f) * samplesize h1"
        using eof la by (simp add: start_def algebra_simps)
      have "length bytes \<le> nat ((l - f) * samplesize h1)"
        using len_b short by linarith
      then have "stream_bytes h1 f l = bytes"
        unfolding stream_bytes_def b1 [symmetric] by simp
      with r len_b short adv show ?thesis by simp
    next
      case full: False
      from run fb nonneg full obtain bytes where
        rd: "read_bytes (buffer h2) start ((l - f) * samplesize h1) = Some bytes"
        and r: "r = Some (pkt\<lparr>data := bytes\<rparr>)"
        by (auto simp: copy_from_cache_def Let_def ss la pk start_def split: option.splits if_splits)
      from rd have s0: "0 \<le> start" and n0: "0 \<le> (l - f) * samplesize h1"
        and bytes: "bytes = take (nat ((l - f) * samplesize h1)) (drop (nat start) (buffer h2))"
        by (auto simp: read_bytes_def split: if_splits)
      have fit: "nat ((l - f) * samplesize h1) + nat start \<le> nat (len h2)"
        using full la s0 n0 by (simp add: start_def algebra_simps nat_add_distrib [symmetric])
      have m: "nat (len h2) \<le> length (buffer h2)"
        using lb lle l0 by linarith
      have "take (nat ((l - f) * samplesize h1)) (drop (nat start) (avail h2)) = bytes"
        unfolding avail_def window_def bytes by (rule take_drop_window [OF fit m])
      then have "bytes = take (nat ((l - f) * samplesize h1)) (drop (nat start) (avail h2))"
        by simp
      also have "\<dots> = stream_bytes h1 f l"
        using s0 bp by (simp add: av start_def stream_bytes_def nat_add_distrib [symmetric])
      finally have b1: "bytes = stream_bytes h1 f l" .
      have "length (buffer h2) - nat start \<ge> nat ((l - f) * samplesize h1)"
        using fit lle lb l0 by linarith
      then have len_b: "int (length bytes) = (l - f) * samplesize h1"
        using n0 by (simp add: bytes)
      with r b1 pk adv show ?thesis by simp
    qed
  qed
qed



lemma stream_bytes_advances:
  assumes "advances h h'" and "bytepos h' \<le> f * samplesize h"
  shows "stream_bytes h' f l = stream_bytes h f l"
  using assms by (simp add: stream_bytes_def advances_def nat_add_distrib [symmetric])

lemma stream_bytes_split:
  assumes "bytepos h \<le> f * samplesize h" and "0 \<le> samplesize h" and "f \<le> p" and "p \<le> l"
  shows "stream_bytes h f l = stream_bytes h f p @ stream_bytes h p l"
proof -
  let ?s = "samplesize h"
  have a: "0 \<le> (p - f) * ?s" "0 \<le> (l - p) * ?s" using assms by simp_all
  have "nat ((l - f) * ?s) = nat ((p - f) * ?s) + nat ((l - p) * ?s)"
    using a by (simp add: nat_add_distrib [symmetric] algebra_simps)
  moreover have "nat (p * ?s - bytepos h) = nat ((p - f) * ?s) + nat (f * ?s - bytepos h)"
    using a assms(1) by (simp add: nat_add_distrib [symmetric] algebra_simps)
  ultimately show ?thesis
    by (simp add: stream_bytes_def take_add)
qed

lemma stream_bytes_short:
  assumes "length (stream_bytes h f p) < nat ((p - f) * samplesize h)"
    and "length (stream_bytes h f p) \<le> nat ((l - f) * samplesize h)"
  shows "stream_bytes h f l = stream_bytes h f p"
  using assms by (auto simp: stream_bytes_def min_def split: if_splits)

lemma c_div_nonneg: "0 \<le> a \<Longrightarrow> 0 < b \<Longrightarrow> c_div a b = a div b"
  by (simp add: c_div_def)

lemma c_div_pos:
  assumes "0 < b" and "0 < c_div a b"
  shows "c_div a b * b \<le> a"
proof (cases "0 \<le> a")
  case True
  have "b * (a div b) + a mod b = a" by simp
  moreover have "0 \<le> a mod b" using assms(1) by simp
  ultimately have "b * (a div b) \<le> a" by linarith
  with True assms(1) show ?thesis by (simp add: c_div_nonneg mult.commute)
next
  case False
  then have "0 \<le> \<bar>a\<bar> div \<bar>b\<bar>" using assms(1) by (simp add: pos_imp_zdiv_nonneg_iff)
  with False assms have False by (simp add: c_div_def)
  then show ?thesis ..
qed

lemma split_pivot_span:
  assumes "0 < samplesize h" and "f < split_pivot h f"
  shows "(split_pivot h f - f) * samplesize h \<le> bufsize h - surplus h * 2"
  using assms c_div_pos [of "samplesize h" "bufsize h - surplus h * 2"]
  by (simp add: split_pivot_def)


lemma get_samples_sound:
  assumes run0: "get_samples e0 h0 f0 l0 = Some y0"
  shows "cache_ok h0 \<longrightarrow> served h0 f0 l0 y0"
proof (rule get_samples.raw_induct [where P = "\<lambda>e h f l y. cache_ok h \<longrightarrow> served h f l y", OF _ run0],
    goal_cases)
  case (1 gs e h f l y)
  note IH = "1"(1) and body = "1"(2)
  show ?case
  proof
    assume ok: "cache_ok h"
    from body have fl: "0 \<le> f" "f < l"
      by (auto split: if_splits)
    with body obtain e1 h1 r1 where
      fb: "fill_buffer_until e h f = Some ((e1, h1), r1)"
      by (cases "fill_buffer_until e h f") auto
    note snd = fill_buffer_until_sound [OF ok fb]
    then have adv1: "advances h h1" by blast
    then have ok1: "cache_ok h1" and ss1: "samplesize h1 = samplesize h"
      by (simp_all add: advances_def)
    show "served h f l y"
    proof (cases "r1 < 0")
      case True
      with body fl fb adv1 show ?thesis by (auto simp: served_def)
    next
      case nonneg: False
      with snd have inc: "bytepos h \<le> f * samplesize h" by simp
      define pkt where "pkt = calloc_packet\<lparr>psize := (l - f) * samplesize h1\<rparr>"
      have pk: "psize pkt = (l - f) * samplesize h1" and pd: "dts pkt = 0"
        by (simp_all add: pkt_def calloc_packet_def)
      show ?thesis
      proof (cases "psize pkt + surplus h1 > bufsize h1")
        case False
        with body fl fb nonneg have run: "copy_from_cache e1 h1 pkt f l = Some y"
          by (simp add: pkt_def Let_def)
        obtain e2 h2 r where y: "y = ((e2, h2), r)" by (metis surj_pair)
        from copy_from_cache_sound [OF ok1 pk run [unfolded y]]
        have adv2: "advances h1 h2" and
          p: "\<And>p. r = Some p \<Longrightarrow> data p = stream_bytes h1 f l \<and> psize p = int (length (data p)) \<and>
                psize p \<le> (l - f) * samplesize h1 \<and> dts p = dts pkt"
          by blast+
        have adv: "advances h h2" using adv1 adv2 by (rule advances_trans)
        show ?thesis
        proof (cases r)
          case None
          with adv fl show ?thesis by (simp add: served_def y)
        next
          case (Some p)
          from run y Some have "\<not> e1"
            by (auto simp: copy_from_cache_def fill_buffer_until_def)
          with snd nonneg have "bytepos h1 \<le> f * samplesize h" by simp
          from stream_bytes_advances [OF adv1 this] p [OF Some] inc adv fl
          show ?thesis by (auto simp: served_def y Some ss1 pd)
        qed
      next
        case split: True
        from ok1 have sspos: "0 < samplesize h1" and sur: "0 \<le> surplus h1"
          by (simp_all add: cache_ok_def)
        define pivot where "pivot = split_pivot h1 f"
        from body fl fb nonneg split sspos obtain e2 h2 prev_opt where
          first: "gs e1 h1 f pivot = Some ((e2, h2), prev_opt)"
          by (cases "gs e1 h1 f pivot") (auto simp: pkt_def Let_def pivot_def)
        from IH [OF first] ok1 have s1: "served h1 f pivot ((e2, h2), prev_opt)" by simp
        then have adv2: "advances h1 h2" and fp: "f < pivot" by (simp_all add: served_def)
        then have ok2: "cache_ok h2" and ss2: "samplesize h2 = samplesize h"
          by (simp_all add: advances_def ss1)
        have adv12: "advances h h2" using adv1 adv2 by (rule advances_trans)
        from split_pivot_span [OF sspos] fp
        have span: "(pivot - f) * samplesize h \<le> bufsize h1 - surplus h1 * 2"
          by (simp add: pivot_def ss1)
        with split sur have pl: "(pivot - f) * samplesize h < (l - f) * samplesize h"
          by (simp add: pk ss1)
        with sspos have pivl: "pivot < l" by (simp add: ss1)
        show ?thesis
        proof (cases prev_opt)
          case None
          with body fl fb nonneg split sspos first have "y = ((e2, h2), None)"
            by (simp add: pkt_def Let_def pivot_def)
          with adv12 fl show ?thesis by (simp add: served_def)
        next
          case (Some prev)
          with s1 have b1: "bytepos h1 \<le> f * samplesize h"
            and dprev: "data prev = stream_bytes h1 f pivot"
            and lprev: "psize prev = int (length (data prev))"
            and tprev: "dts prev = 0"
            by (auto simp: served_def ss1)
          from stream_bytes_advances [OF adv1 b1] dprev
          have dprev': "data prev = stream_bytes h f pivot" by simp
          show ?thesis
          proof (cases "psize prev < (pivot - f) * samplesize h")
            case eof: True
            with body fl fb nonneg split sspos first Some
            have y: "y = ((e2, h2), Some (prev\<lparr>flags := flags prev \<union> {AUDIO_FLAG_EOF}\<rparr>))"
              by (simp add: pkt_def Let_def pivot_def ss1)
            from eof lprev dprev' have
              "length (stream_bytes h f pivot) < nat ((pivot - f) * samplesize h)" by simp
            moreover from eof lprev dprev' pl have
              "length (stream_bytes h f pivot) \<le> nat ((l - f) * samplesize h)" by simp
            ultimately have "stream_bytes h f l = stream_bytes h f pivot"
              by (rule stream_bytes_short)
            with dprev' lprev tprev eof pl inc adv12 fl show ?thesis
              by (simp add: served_def y)
          next
            case full: False
            show ?thesis
            proof (cases "psize prev \<noteq> (pivot - f) * samplesize h")
              case True
              with body fl fb nonneg split sspos first Some full show ?thesis
                by (simp add: pkt_def Let_def pivot_def ss1)
            next
              case False
              then have eq: "psize prev = (pivot - f) * samplesize h" by simp
              with body fl fb nonneg split sspos first Some obtain e3 h3 next_opt where
                second: "gs e2 h2 pivot l = Some ((e3, h3), next_opt)"
                by (cases "gs e2 h2 pivot l") (auto simp: pkt_def Let_def pivot_def ss1)
              from IH [OF second] ok2 have s2: "served h2 pivot l ((e3, h3), next_opt)" by simp
              then have adv3: "advances h2 h3" by (simp add: served_def)
              have adv13: "advances h h3" using adv12 adv3 by (rule advances_trans)
              show ?thesis
              proof (cases next_opt)
                case None
                with body fl fb nonneg split sspos first Some eq second
                have "y = ((e3, h3), None)"
                  by (simp add: pkt_def Let_def pivot_def ss1)
                with adv13 fl show ?thesis by (simp add: served_def)
              next
                case nx: (Some nxt)
                with s2 have b2: "bytepos h2 \<le> pivot * samplesize h"
                  and dnext: "data nxt = stream_bytes h2 pivot l"
                  and lnext: "psize nxt = int (length (data nxt))"
                  and snext: "psize nxt \<le> (l - pivot) * samplesize h"
                  by (auto simp: served_def ss2)
                from stream_bytes_advances [OF adv12 b2] dnext
                have dnext': "data nxt = stream_bytes h pivot l" by simp
                have fits: "\<not> psize prev + psize nxt > psize pkt"
                  using eq snext by (simp add: pk ss1 algebra_simps)
                with body fl fb nonneg split sspos first Some eq second nx
                have y: "y = ((e3, h3), Some (pkt\<lparr>data := data prev @ data nxt,
                                                  psize := psize prev + psize nxt\<rparr>))"
                  by (simp add: pkt_def Let_def pivot_def ss1)
                from sspos have "0 \<le> samplesize h" by (simp add: ss1)
                from stream_bytes_split [OF inc this, of pivot l] fp pivl
                have "stream_bytes h f l = data prev @ data nxt"
                  by (simp add: dprev' dnext')
                with lprev lnext fits adv13 fl inc pd show ?thesis
                  by (simp add: served_def y pk ss1)
              qed
            qed
          qed
        qed
      qed
    qed
  qed
qed

lemma buffer_next_frame_defined:
  assumes ok: "cache_ok h" and s: "stream h = dec # rest"
    and small: "2 * int (length dec) \<le> bufsize h"
  shows "\<exists>h'. buffer_next_frame h = Some (h', 1)"
proof -
  from ok have lb: "int (length (buffer h)) = bufsize h" and l0: "0 \<le> len h"
    and lle: "len h \<le> bufsize h"
    by (simp_all add: cache_ok_def)
  show ?thesis
  proof (cases "len h + int (length dec) > bufsize h")
    case True
    with lb l0 lle small s show ?thesis
      by (simp add: buffer_next_frame_def decode_next_frame_def memmove_def read_bytes_def
            write_bytes_def Let_def)
  next
    case False
    with lb l0 lle small s show ?thesis
      by (simp add: buffer_next_frame_def decode_next_frame_def write_bytes_def Let_def)
  qed
qed

lemma run_requests_advances:
  "cache_ok h \<Longrightarrow> run_requests e h reqs = Some (e', h') \<Longrightarrow> advances h h'"
proof (induction reqs arbitrary: e h)
  case Nil
  then show ?case by (simp add: advances_refl)
next
  case (Cons rq reqs)
  obtain f l where rq: "rq = (f, l)" by (cases rq)
  from Cons.prems(2) rq obtain e1 h1 pkt where
    g: "get_samples e h f l = Some ((e1, h1), pkt)" and r: "run_requests e1 h1 reqs = Some (e', h')"
    by (auto split: option.splits)
  from get_samples_sound [OF g] Cons.prems(1) have a: "advances h h1"
    by (simp add: served_def)
  then have "cache_ok h1" by (simp add: advances_def)
  from Cons.IH [OF this r] a show ?case using advances_trans by blast
qed

lemma copy_from_cache_dts:
  "copy_from_cache e h pkt f l = Some (s, Some p) \<Longrightarrow> dts p = dts pkt"
  by (auto simp: copy_from_cache_def Let_def split: option.splits if_splits prod.splits)


subsection \<open>Requests that run into the end of the stream\<close>










subsection \<open>A request whose first byte is evicted while the cache is filled\<close>

text \<open>The window is full, one more unit is needed to reach \<open>last_sample\<close>, and the first
  requested byte lies in the part of the window that this unit evicts. The request fits
  the buffer (its byte span plus \<open>surplus\<close> does not exceed \<open>bufsize\<close>), so it is copied
  directly: \<open>start\<close> is negative, the assertion of line 351 bounds \<open>start + size\<close> from
  above only, and the \<^verbatim>\<open>memcpy\<close> of line 352 reads before the buffer.\<close>

lemma fill_evicts_first_sample:
  assumes ok: "cache_ok h" and st: "stream h = dec # rest"
    and small: "2 * int (length dec) \<le> bufsize h"
    and over: "len h + int (length dec) > bufsize h"
    and fl: "0 \<le> f" "f < l"
    and F1: "bytepos h \<le> f * samplesize h" and F2: "f * samplesize h < bytepos h + int (length dec)"
    and L1: "bytepos h + len h \<le> l * samplesize h"
    and L2: "l * samplesize h < bytepos h + len h + int (length dec)"
    and fits: "(l - f) * samplesize h + surplus h \<le> bufsize h"
  shows "get_samples False h f l = None"
proof -
  let ?d = "int (length dec)"
  from over small have dl: "?d \<le> len h" by linarith
  have n0: "not_in_cache h f = 0"
    using F1 F2 dl by (simp add: not_in_cache_def)
  have fill1: "fill_buffer_until False h f = Some ((False, h), bytepos h + len h)"
    using n0 by (simp add: fill_buffer_until_def fill_loop.simps [of h f])
  from ok have nn: "0 \<le> bytepos h + len h" by (simp add: cache_ok_def)
  from buffer_next_frame_defined [OF ok st small] obtain h' where
    b: "buffer_next_frame h = Some (h', 1)" by blast
  have "(1::int) \<noteq> 0" by simp
  from buffer_next_frame_step [OF ok b this] st over
  have h': "bytepos h' = bytepos h + ?d" "len h' = len h" "samplesize h' = samplesize h"
    "bufsize h' = bufsize h" "cache_ok h'"
    by auto
  have n1: "not_in_cache h l = 1"
    using L1 F1 fl ok by (auto simp: not_in_cache_def cache_ok_def)
  have n2: "not_in_cache h' l = 0"
    using L1 L2 dl h' by (simp add: not_in_cache_def)
  have fill2: "fill_buffer_until False h l = Some ((False, h'), bytepos h' + len h')"
    using n1 n2 b
    by (simp add: fill_buffer_until_def fill_loop.simps [of h l] fill_loop.simps [of h' l])
  have neg: "f * samplesize h' - bytepos h' < 0" using F2 h' by simp
  have copy: "copy_from_cache False h pkt f l = None" for pkt
    using fill2 neg nn L2 h'
    by (simp add: copy_from_cache_def Let_def read_bytes_def)
  show ?thesis
    using fl fill1 nn fits copy
    by (subst get_samples.simps) (simp add: Let_def calloc_packet_def)
qed


section \<open>The claims about the decode cache\<close>

lemmas lavf_eval =
  get_samples.simps fill_buffer_until_def fill_loop.simps not_in_cache_def
  buffer_next_frame_def decode_next_frame_def memmove_def read_bytes_def write_bytes_def
  copy_from_cache_def split_pivot_def c_div_def calloc_packet_def payload_packet_def Let_def

text \<open>
  Where the three requests \<open>get_samples(a, c)\<close>, \<open>get_samples(a, b)\<close> and then
  \<open>get_samples(b, c)\<close> each return a packet without reading outside the buffer, the
  payload of the first is the payload of the second followed by the payload of the third.
\<close>

lemma split_correct_inside_window:
  assumes "cache_ok h"
    and "get_samples e h a c = Some (s_ac, Some p_ac)"
    and "get_samples e h a b = Some ((e1, h1), Some p_ab)"
    and "get_samples e1 h1 b c = Some (s_bc, Some p_bc)"
  shows "data p_ac = data p_ab @ data p_bc"
proof -
  from get_samples_sound [OF assms(2)] assms(1)
  have ac: "data p_ac = stream_bytes h a c" and inc: "bytepos h \<le> a * samplesize h"
    by (auto simp: served_def split: prod.splits)
  from get_samples_sound [OF assms(3)] assms(1)
  have ab: "data p_ab = stream_bytes h a b" and adv: "advances h h1" and lt1: "a < b"
    by (auto simp: served_def)
  then have ok1: "cache_ok h1" and ss: "samplesize h1 = samplesize h"
    by (simp_all add: advances_def)
  from get_samples_sound [OF assms(4)] ok1
  have bc: "data p_bc = stream_bytes h1 b c" and b1: "bytepos h1 \<le> b * samplesize h"
    and lt2: "b < c"
    by (auto simp: served_def ss split: prod.splits)
  from assms(1) have "0 \<le> samplesize h" by (simp add: cache_ok_def)
  from stream_bytes_split [OF inc this, of b c] lt1 lt2
  have "stream_bytes h a c = stream_bytes h a b @ stream_bytes h b c" by simp
  with ac ab bc stream_bytes_advances [OF adv b1] show ?thesis by simp
qed

text \<open>
  Claim C1 (split correctness) fails on the code. The claim: for every split point
  \<open>a < b < c\<close> for which the three requests succeed, the payload of \<open>get_samples(a, c)\<close> is
  the payload of \<open>get_samples(a, b)\<close> followed by that of \<open>get_samples(b, c)\<close>. The code:
  on \<open>cache15\<close> (a well-formed cache, \<open>surplus = 4 * 3 div 2\<close>) the requests \<open>[3, 5)\<close> and
  then \<open>[5, 12)\<close> return the bytes \<open>3, 4\<close> and \<open>5\<close> to \<open>11\<close>. The request \<open>[3, 12)\<close> fits
  (\<open>9 + 6 \<le> 15\<close>) and is copied directly; filling the cache up to sample 12 evicts the
  bytes 0 to 3, \<open>start\<close> is \<open>-1\<close>, the assertion of line 351 holds, and the copy of line
  352 starts one byte before the buffer: the request has no defined result, and what it
  returns is not the bytes \<open>3\<close> to \<open>11\<close>. The same happens with the parameters that
  \<^verbatim>\<open>init\<close> computes for a stereo 16-bit stream with frames of 1024 samples, on the
  request \<open>[1023, 95487)\<close>.
\<close>

theorem split_breaks_when_fill_evicts:
  "cache_ok cache15 \<and> surplus cache15 * 2 < bufsize cache15 \<and>
   get_samples False cache15 3 5 = Some ((False, cache15_a), Some (payload_packet [3, 4])) \<and>
   get_samples False cache15_a 5 12 =
     Some ((False, cache15_b), Some (payload_packet [5, 6, 7, 8, 9, 10, 11])) \<and>
   (12 - 3) * samplesize cache15 + surplus cache15 \<le> bufsize cache15 \<and>
   fill_buffer_until False cache15 12 = Some ((False, cache15_b), 16) \<and>
   3 * samplesize cache15_b - bytepos cache15_b = - 1 \<and>
   - 1 + (12 - 3) * samplesize cache15_b \<le> bufsize cache15_b \<and>
   read_bytes (buffer cache15_b) (- 1) ((12 - 3) * samplesize cache15_b) = None \<and>
   get_samples False cache15 3 12 = None \<and>
   cache_ok cache_2ch \<and> surplus cache_2ch * 2 < bufsize cache_2ch \<and>
   get_samples False cache_2ch 1023 95487 = None"
proof -
  have small: "cache_ok cache15 \<and> surplus cache15 * 2 < bufsize cache15 \<and>
     get_samples False cache15 3 5 = Some ((False, cache15_a), Some (payload_packet [3, 4])) \<and>
     get_samples False cache15_a 5 12 =
       Some ((False, cache15_b), Some (payload_packet [5, 6, 7, 8, 9, 10, 11])) \<and>
     (12 - 3) * samplesize cache15 + surplus cache15 \<le> bufsize cache15 \<and>
     fill_buffer_until False cache15 12 = Some ((False, cache15_b), 16) \<and>
     3 * samplesize cache15_b - bytepos cache15_b = - 1 \<and>
     - 1 + (12 - 3) * samplesize cache15_b \<le> bufsize cache15_b \<and>
     read_bytes (buffer cache15_b) (- 1) ((12 - 3) * samplesize cache15_b) = None \<and>
     get_samples False cache15 3 12 = None"
    by (simp add: lavf_eval cache_ok_def cache15_def cache15_a_def cache15_b_def)
  have ok: "cache_ok cache_2ch" and cap: "surplus cache_2ch * 2 < bufsize cache_2ch"
    by (simp_all add: cache_ok_def cache_2ch_def)
  have "get_samples False cache_2ch 1023 95487 = None"
    by (rule fill_evicts_first_sample [where dec = "replicate 4096 0" and rest = "[]"])
       (simp_all add: cache_2ch_def cache_ok_def)
  with small ok cap show ?thesis by blast
qed

text \<open>
  Claim C2 (split trigger and pivot), as amended. The pivot is a whole sample:
  \<open>pivot = first_sample + (bufsize - 2 * surplus) div samplesize\<close>, so the byte span of the
  first half is the largest multiple of \<open>samplesize\<close> that does not exceed
  \<open>bufsize - 2 * surplus\<close>. On a well-formed cache with \<open>2 * surplus < bufsize\<close> (the
  assertion of \<^verbatim>\<open>init\<close>), a request that has passed the first fill and whose byte span
  plus \<open>surplus\<close> exceeds \<open>bufsize\<close> fetches \<open>[first_sample, pivot)\<close>; when that returns a
  packet of exactly that span it fetches \<open>[pivot, last_sample)\<close> on the state the first
  half left; when that returns a packet too, the result is a packet whose payload is the
  first payload followed by the second and whose size is the sum of the two sizes.
\<close>

theorem split_request:
  assumes ok: "cache_ok h" and cap: "surplus h * 2 < bufsize h"
    and fl: "0 \<le> f" "f < l"
    and fb: "fill_buffer_until e h f = Some ((e1, h1), r1)" and r1: "0 \<le> r1"
    and split: "(l - f) * samplesize h + surplus h > bufsize h"
    and first: "get_samples e1 h1 f (split_pivot h f) = Some ((e2, h2), Some prev)"
    and full: "psize prev = (split_pivot h f - f) * samplesize h"
    and second: "get_samples e2 h2 (split_pivot h f) l = Some ((e3, h3), Some nxt)"
  shows "(split_pivot h f - f) * samplesize h =
           (bufsize h - surplus h * 2) - (bufsize h - surplus h * 2) mod samplesize h \<and>
         (\<exists>p. get_samples e h f l = Some ((e3, h3), Some p) \<and>
              data p = data prev @ data nxt \<and> psize p = psize prev + psize nxt)"
proof
  from ok have sspos: "0 < samplesize h" by (simp add: cache_ok_def)
  from c_div_nonneg [of "bufsize h - surplus h * 2" "samplesize h"] cap sspos
  have "split_pivot h f - f = (bufsize h - surplus h * 2) div samplesize h"
    by (simp add: split_pivot_def)
  then show "(split_pivot h f - f) * samplesize h =
           (bufsize h - surplus h * 2) - (bufsize h - surplus h * 2) mod samplesize h"
    by (simp add: minus_mod_eq_div_mult)
next
  from fill_buffer_until_sound [OF ok fb] have adv1: "advances h h1" by blast
  then have ok1: "cache_ok h1" and same: "samplesize h1 = samplesize h"
    "bufsize h1 = bufsize h" "surplus h1 = surplus h"
    by (simp_all add: advances_def)
  then have piv: "split_pivot h1 f = split_pivot h f" by (simp add: split_pivot_def)
  from get_samples_sound [OF first] ok1 have adv2: "advances h1 h2"
    by (simp add: served_def)
  then have ok2: "cache_ok h2" and ss2: "samplesize h2 = samplesize h"
    by (simp_all add: advances_def same)
  from get_samples_sound [OF second] ok2
  have "psize nxt \<le> (l - split_pivot h f) * samplesize h"
    by (auto simp: served_def ss2)
  with full have fits: "\<not> psize prev + psize nxt > (l - f) * samplesize h"
    by (simp add: algebra_simps)
  from ok have "samplesize h \<noteq> 0" by (simp add: cache_ok_def)
  with fl fb r1 split first full second fits
  have "get_samples e h f l =
      Some ((e3, h3), Some (calloc_packet\<lparr>psize := (l - f) * samplesize h,
                                          data := data prev @ data nxt,
                                          psize := psize prev + psize nxt\<rparr>))"
    by (subst get_samples.simps) (simp add: Let_def same piv calloc_packet_def)
  then show "\<exists>p. get_samples e h f l = Some ((e3, h3), Some p) \<and>
              data p = data prev @ data nxt \<and> psize p = psize prev + psize nxt"
    by simp
qed

text \<open>On \<open>cache13\<close> the request \<open>[0, 4)\<close> is split at the pivot \<open>1\<close>.\<close>

theorem split_request_witness:
  "cache_ok cache13 \<and> surplus cache13 * 2 < bufsize cache13 \<and> (0::int) \<le> 0 \<and> (0::int) < 4 \<and>
   fill_buffer_until False cache13 0 = Some ((False, cache13), 3) \<and> (0::int) \<le> 3 \<and>
   (4 - 0) * samplesize cache13 + surplus cache13 > bufsize cache13 \<and>
   get_samples False cache13 0 (split_pivot cache13 0) =
     Some ((False, cache13_a), Some (payload_packet [1, 2, 3])) \<and>
   psize (payload_packet [1, 2, 3]) = (split_pivot cache13 0 - 0) * samplesize cache13 \<and>
   get_samples False cache13_a (split_pivot cache13 0) 4 =
     Some ((False, cache13_b), Some (payload_packet [4, 5, 6, 7, 8, 9, 10, 11, 12])) \<and>
   (split_pivot cache13 0 - 0) * samplesize cache13 =
     (bufsize cache13 - surplus cache13 * 2) - (bufsize cache13 - surplus cache13 * 2) mod samplesize cache13 \<and>
   (\<exists>p. get_samples False cache13 0 4 = Some ((False, cache13_b), Some p) \<and>
        data p = data (payload_packet [1, 2, 3]) @ data (payload_packet [4, 5, 6, 7, 8, 9, 10, 11, 12]) \<and>
        psize p = psize (payload_packet [1, 2, 3]) + psize (payload_packet [4, 5, 6, 7, 8, 9, 10, 11, 12]))"
proof -
  have ok: "cache_ok cache13" and cap: "surplus cache13 * 2 < bufsize cache13"
    and sp: "(4 - 0) * samplesize cache13 + surplus cache13 > bufsize cache13"
    by (simp_all add: cache_ok_def cache13_def)
  have a: "(0::int) \<le> 0" and b: "(0::int) < 4" and d: "(0::int) \<le> 3" by simp_all
  have c: "fill_buffer_until False cache13 0 = Some ((False, cache13), 3)"
    by (simp add: lavf_eval cache13_def)
  have g1: "get_samples False cache13 0 (split_pivot cache13 0) =
     Some ((False, cache13_a), Some (payload_packet [1, 2, 3]))"
    by (simp add: lavf_eval cache13_def cache13_a_def)
  have fu: "psize (payload_packet [1, 2, 3]) = (split_pivot cache13 0 - 0) * samplesize cache13"
    by (simp add: lavf_eval cache13_def)
  have g2: "get_samples False cache13_a (split_pivot cache13 0) 4 =
     Some ((False, cache13_b), Some (payload_packet [4, 5, 6, 7, 8, 9, 10, 11, 12]))"
    by (simp add: lavf_eval cache13_def cache13_a_def cache13_b_def)
  from split_request [OF ok cap a b c d sp g1 fu g2] ok cap a b c d sp g1 fu g2
  show ?thesis by blast
qed

text \<open>The claim as it is written says that the byte span of the first half equals
  \<open>bufsize - 2 * surplus\<close>. On \<open>cache13\<close> the request \<open>[0, 4)\<close> is split and served, and
  the first half spans 3 bytes where \<open>bufsize - 2 * surplus = 5\<close>; with the parameters of
  a seven-channel 16-bit stream the first half spans 340984 bytes where
  \<open>bufsize - 2 * surplus = 340992\<close>.\<close>

theorem split_pivot_counterexample:
  "cache_ok cache13 \<and> surplus cache13 * 2 < bufsize cache13 \<and>
   (4 - 0) * samplesize cache13 + surplus cache13 > bufsize cache13 \<and>
   get_samples False cache13 0 4 =
     Some ((False, cache13_b), Some (payload_packet [1, 2, 3, 4, 5, 6, 7, 8, 9, 10, 11, 12])) \<and>
   (split_pivot cache13 0 - 0) * samplesize cache13 \<noteq> bufsize cache13 - 2 * surplus cache13 \<and>
   cache_ok cache_7ch \<and> surplus cache_7ch * 2 < bufsize cache_7ch \<and>
   (30000 - 0) * samplesize cache_7ch + surplus cache_7ch > bufsize cache_7ch \<and>
   (split_pivot cache_7ch 0 - 0) * samplesize cache_7ch \<noteq> bufsize cache_7ch - 2 * surplus cache_7ch"
  by (simp add: lavf_eval cache_ok_def cache13_def cache13_b_def cache_7ch_def)



text \<open>
  Claim C4 (sliding-window eviction). A decoded unit is at most
  \<^verbatim>\<open>AVCODEC_MAX_AUDIO_FRAME_SIZE\<close> bytes and \<^verbatim>\<open>init\<close> makes the buffer twice that, so a unit is at
  most half the buffer. On a well-formed cache \<^verbatim>\<open>buffer_next_frame\<close> then returns 1 for the
  next unit \<open>dec\<close>; when \<open>len + size dec > bufsize\<close> the new window is the old one without
  its first \<open>size dec\<close> bytes, followed by \<open>dec\<close>, and \<open>bytepos\<close> has grown by exactly
  \<open>size dec\<close>; otherwise the unit is appended and \<open>bytepos\<close> stays. And over every run of
  requests on a well-formed cache, \<open>bytepos\<close> never decreases and \<open>0 \<le> len \<le> bufsize\<close>
  holds at the end (hence after every request of the run).
\<close>

theorem sliding_window_eviction:
  "(cache_ok h \<and> stream h = dec # rest \<and> 2 * int (length dec) \<le> bufsize h \<longrightarrow>
      (\<exists>h'. buffer_next_frame h = Some (h', 1) \<and> stream h' = rest \<and>
         (if len h + int (length dec) > bufsize h
          then window h' = drop (length dec) (window h) @ dec \<and>
               bytepos h' = bytepos h + int (length dec) \<and> len h' = len h
          else window h' = window h @ dec \<and>
               bytepos h' = bytepos h \<and> len h' = len h + int (length dec)))) \<and>
   (cache_ok h \<and> run_requests e h reqs = Some (e', h'') \<longrightarrow>
      bytepos h \<le> bytepos h'' \<and> 0 \<le> len h'' \<and> len h'' \<le> bufsize h'' \<and> bufsize h'' = bufsize h)"
proof -
  have 1: "\<exists>h'. buffer_next_frame h = Some (h', 1) \<and> stream h' = rest \<and>
         (if len h + int (length dec) > bufsize h
          then window h' = drop (length dec) (window h) @ dec \<and>
               bytepos h' = bytepos h + int (length dec) \<and> len h' = len h
          else window h' = window h @ dec \<and>
               bytepos h' = bytepos h \<and> len h' = len h + int (length dec))"
    if a: "cache_ok h \<and> stream h = dec # rest \<and> 2 * int (length dec) \<le> bufsize h"
  proof -
    from a obtain h' where b: "buffer_next_frame h = Some (h', 1)"
      using buffer_next_frame_defined by blast
    from a have ok: "cache_ok h" by simp
    have "(1::int) \<noteq> 0" by simp
    from buffer_next_frame_step [OF ok b this] a b show ?thesis
      by (auto split: if_splits)
  qed
  have 2: "bytepos h \<le> bytepos h'' \<and> 0 \<le> len h'' \<and> len h'' \<le> bufsize h'' \<and> bufsize h'' = bufsize h"
    if "cache_ok h \<and> run_requests e h reqs = Some (e', h'')"
  proof -
    from that have "advances h h''" using run_requests_advances by blast
    then show ?thesis by (simp add: advances_def cache_ok_def)
  qed
  from 1 2 show ?thesis by blast
qed

text \<open>On the full window of \<open>cache8_c\<close> the unit \<open>13, 14\<close> evicts the bytes \<open>5, 6\<close>; the
  run of the requests \<open>[0, 3)\<close> and \<open>[3, 10)\<close> takes \<open>cache8\<close> to \<open>cache8_c\<close>.\<close>

theorem sliding_window_eviction_witness:
  "cache_ok cache8_c \<and> stream cache8_c = [13, 14] # [] \<and>
   2 * int (length [13, 14 :: uint8_t]) \<le> bufsize cache8_c \<and>
   len cache8_c + int (length [13, 14 :: uint8_t]) > bufsize cache8_c \<and>
   (\<exists>h'. buffer_next_frame cache8_c = Some (h', 1) \<and> stream h' = [] \<and>
      window h' = [7, 8, 9, 10, 11, 12, 13, 14] \<and> bytepos h' = 6 \<and> len h' = 8) \<and>
   cache_ok cache8 \<and>
   run_requests False cache8 [(0, 3), (3, 10)] = Some (False, cache8_c) \<and>
   bytepos cache8 \<le> bytepos cache8_c \<and> 0 \<le> len cache8_c \<and> len cache8_c \<le> bufsize cache8_c"
proof -
  have ok: "cache_ok cache8_c" and st: "stream cache8_c = [13, 14] # []"
    and sm: "2 * int (length [13, 14 :: uint8_t]) \<le> bufsize cache8_c"
    and ov: "len cache8_c + int (length [13, 14 :: uint8_t]) > bufsize cache8_c"
    and w: "window cache8_c = [5, 6, 7, 8, 9, 10, 11, 12]"
    and bp: "bytepos cache8_c = 4" "len cache8_c = 8"
    by (simp_all add: cache_ok_def cache8_c_def window_def)
  have ok8: "cache_ok cache8" by (simp add: cache_ok_def cache8_def)
  have run: "run_requests False cache8 [(0, 3), (3, 10)] = Some (False, cache8_c)"
    by (simp add: lavf_eval cache8_def cache8_c_def)
  from sliding_window_eviction [of cache8_c "[13, 14]" "[]"] ok st sm ov w bp
  have 1: "\<exists>h'. buffer_next_frame cache8_c = Some (h', 1) \<and> stream h' = [] \<and>
      window h' = [7, 8, 9, 10, 11, 12, 13, 14] \<and> bytepos h' = 6 \<and> len h' = 8"
    by simp
  from sliding_window_eviction [of cache8 "[]" "[]" False "[(0, 3), (3, 10)]" False cache8_c] ok8 run
  have 2: "bytepos cache8 \<le> bytepos cache8_c \<and> 0 \<le> len cache8_c \<and> len cache8_c \<le> bufsize cache8_c"
    by blast
  from ok st sm ov 1 ok8 run 2 show ?thesis by blast
qed

text \<open>
  Claim C5 (backward-seek rejection). A request \<open>0 \<le> first_sample < last_sample\<close> whose first
  byte \<open>first_sample * samplesize\<close> lies below \<open>bytepos\<close> returns \<^verbatim>\<open>NULL\<close>, never a packet,
  and leaves the handle (buffer, \<open>bytepos\<close>, \<open>len\<close> and everything else) and the \<^verbatim>\<open>errored\<close>
  flag as they were.
\<close>

theorem backward_seek_rejected:
  assumes "0 \<le> f" and "f < l"
    and "f * samplesize h < bytepos h"
  shows "get_samples errored h f l = Some ((errored, h), None)"
  using assms
  by (subst get_samples.simps) (simp add: fill_buffer_until_def not_in_cache_def)

text \<open>On \<open>cache8_c\<close>, whose window starts at byte 4, the request \<open>[1, 3)\<close>.\<close>

theorem backward_seek_rejected_witness:
  "(0::int) \<le> 1 \<and> (1::int) < 3 \<and> 1 * samplesize cache8_c < bytepos cache8_c \<and>
   get_samples False cache8_c 1 3 = Some ((False, cache8_c), None)"
proof -
  have a: "(0::int) \<le> 1" and b: "(1::int) < 3" by simp_all
  have c: "1 * samplesize cache8_c < bytepos cache8_c" by (simp add: cache8_c_def)
  from backward_seek_rejected [OF a b c, of False] a b c show ?thesis by blast
qed

text \<open>
  Claim C6 (sticky decode failure), as amended. The flag \<^verbatim>\<open>errored\<close> is one static variable
  of \<^verbatim>\<open>fill_buffer_until\<close>, shared by all handles. Once it is set, every request
  \<open>0 \<le> first_sample < last_sample\<close> on every handle returns \<^verbatim>\<open>NULL\<close> at once: the handle is
  left as it was (nothing is decoded) and the flag stays set.
\<close>

theorem errored_is_shared_and_sticky:
  assumes "0 \<le> f" and "f < l"
  shows "get_samples True h f l = Some ((True, h), None)"
  using assms
  by (subst get_samples.simps) (simp add: fill_buffer_until_def)

theorem errored_is_shared_and_sticky_witness:
  "(0::int) \<le> 0 \<and> (0::int) < 1 \<and> get_samples True cache8 0 1 = Some ((True, cache8), None)"
proof -
  have a: "(0::int) \<le> 0" and b: "(0::int) < 1" by simp_all
  from errored_is_shared_and_sticky [OF a b, of cache8] a b show ?thesis by blast
qed

text \<open>The claim as it is written says that the flag belongs to one instance and that
  other instances are unaffected. The request \<open>[0, 4)\<close> on \<open>cache8_end\<close> runs into the end
  of its stream and sets the flag. The handle \<open>cache8\<close> holds sample 0 in its window and
  serves \<open>[0, 1)\<close> while the flag is clear, yet the same request fails once the other
  handle has set the flag.\<close>

theorem errored_per_instance_counterexample:
  "get_samples False cache8_end 0 4 =
     Some ((True, cache8_end), Some (payload_packet [1, 2]\<lparr>flags := {AUDIO_FLAG_EOF}\<rparr>)) \<and>
   get_samples False cache8 0 1 = Some ((False, cache8), Some (payload_packet [1])) \<and>
   get_samples True cache8 0 1 = Some ((True, cache8), None)"
  by (simp add: lavf_eval cache8_def cache8_end_def)

text \<open>
  Claim C8 (timestamp), as amended. \<^verbatim>\<open>get_samples\<close> never writes the timestamp of a packet:
  every packet it returns, copied from the cache or merged from two halves or passed up
  from the first half, carries the timestamp 0 that \<^verbatim>\<open>calloc\<close> gave it, whatever
  \<open>first_sample\<close> is.
\<close>

theorem timestamp_is_zero:
  assumes run0: "get_samples e0 h0 f0 l0 = Some (s0, Some p0)"
  shows "dts p0 = 0"
proof -
  have "\<forall>p. snd (s0, Some p0) = Some p \<longrightarrow> dts p = 0"
  proof (rule get_samples.raw_induct [where P = "\<lambda>e h f l y. \<forall>p. snd y = Some p \<longrightarrow> dts p = 0",
        OF _ run0], goal_cases)
    case (1 gs e h f l y)
    note IH = "1"(1) and body = "1"(2)
    show ?case
    proof (intro allI impI)
      fix p assume p: "snd y = Some p"
      from body obtain e1 h1 r1 where
        fb: "fill_buffer_until e h f = Some ((e1, h1), r1)" and fl: "0 \<le> f" "f < l"
        by (cases "fill_buffer_until e h f") (auto split: if_splits)
      define pkt where "pkt = calloc_packet\<lparr>psize := (l - f) * samplesize h1\<rparr>"
      have pd: "dts pkt = 0" by (simp add: pkt_def calloc_packet_def)
      from body fb fl p have nn: "\<not> r1 < 0" by (auto split: if_splits)
      show "dts p = 0"
      proof (cases "psize pkt + surplus h1 > bufsize h1")
        case False
        with body fb fl nn have "copy_from_cache e1 h1 pkt f l = Some y"
          by (simp add: pkt_def Let_def)
        with p pd copy_from_cache_dts [of e1 h1 pkt f l "fst y" p] show ?thesis
          by (cases y) simp
      next
        case True
        with body fb fl nn obtain s2 prev_opt where
          first: "gs e1 h1 f (split_pivot h1 f) = Some (s2, prev_opt)"
          by (cases "gs e1 h1 f (split_pivot h1 f)")
             (auto simp: pkt_def Let_def split: if_splits)
        show ?thesis
        proof (cases prev_opt)
          case None
          with body fb fl nn True first p show ?thesis
            by (auto simp: pkt_def Let_def split: if_splits prod.splits)
        next
          case (Some prev)
          with IH [OF first] have dprev: "dts prev = 0" by simp
          show ?thesis
          proof (cases "psize prev < (split_pivot h1 f - f) * samplesize h1")
            case eof: True
            with body fb fl nn True first Some p dprev show ?thesis
              by (auto simp: pkt_def Let_def split: if_splits prod.splits)
          next
            case False
            with body fb fl nn True first Some p pd show ?thesis
              by (auto simp: pkt_def Let_def calloc_packet_def
                       split: if_splits prod.splits option.splits Option.bind_splits)
          qed
        qed
      qed
    qed
  qed
  then show ?thesis by simp
qed

theorem timestamp_is_zero_witness:
  "get_samples False cache8 1 3 = Some ((False, cache8_b), Some (payload_packet [2, 3])) \<and>
   dts (payload_packet [2, 3]) = 0"
proof -
  have a: "get_samples False cache8 1 3 = Some ((False, cache8_b), Some (payload_packet [2, 3]))"
    by (simp add: lavf_eval cache8_def cache8_b_def)
  from timestamp_is_zero [OF a] a show ?thesis by blast
qed

text \<open>The claim as it is written says that the timestamp equals \<open>first_sample\<close>. The
  request \<open>[1, 3)\<close> on \<open>cache8\<close> returns a packet whose timestamp is not 1.\<close>

theorem timestamp_counterexample:
  "get_samples False cache8 1 3 = Some ((False, cache8_b), Some (payload_packet [2, 3])) \<and>
   dts (payload_packet [2, 3]) \<noteq> 1"
  by (simp add: lavf_eval cache8_def cache8_b_def)


section \<open>Properties of the encoder adapter\<close>

lemma encode_loop_refines:
  assumes run0: "encode_loop w h0 out0 = Some y0"
  shows "flags out0 = {} \<and> samplecount out0 = 0 \<longrightarrow>
      (if psize out0 \<noteq> 0 then y0 = (h0, Some out0) else running_pulls w h0 y0)"
proof (rule encode_loop.raw_induct [where P = "\<lambda>w h out y. flags out = {} \<and> samplecount out = 0 \<longrightarrow>
      (if psize out \<noteq> 0 then y = (h, Some out) else running_pulls w h y)", OF _ run0],
    goal_cases)
  case (1 loop w h out y)
  note IH = "1"(1) and body = "1"(2)
  show ?case
  proof
  assume out: "flags out = {} \<and> samplecount out = 0"
  show "if psize out \<noteq> 0 then y = (h, Some out) else running_pulls w h y"
  proof (cases "psize out \<noteq> 0")
    case True
    with body show ?thesis by simp
  next
    case False
    then have z: "psize out = 0" by simp
    from body z obtain b where he: "holds_eof (in_pkt h) = Some b"
      by (cases "holds_eof (in_pkt h)") auto
    show ?thesis
    proof (cases b)
      case True
      with he obtain p where "in_pkt h = Live p" "AUDIO_FLAG_EOF \<in> flags p"
        by (auto simp: holds_eof_def split: packet_ref.splits)
      moreover from this body z he True have "y = (h\<lparr>finishing := 1, in_pkt := Dangling\<rparr>, None)"
        by (auto simp: error_exit_def af_free_packet_def)
      ultimately show ?thesis using z by (simp add: running_pulls.end_of_stream)
    next
      case False
      with he have nf: "holds_eof (in_pkt h) = Some False" by simp
      then obtain r where fr: "af_free_packet (in_pkt h) = Some r"
        by (auto simp: holds_eof_def af_free_packet_def split: packet_ref.splits)
      obtain u got where pw: "pull_window w h = (u, got)" by (metis surj_pair)
      show ?thesis
      proof (cases got)
        case None
        with body z nf fr pw have "y = (h\<lparr>filter_chain := u, in_pkt := Null\<rparr>, None)"
          by (auto simp: pull_window_def error_exit_def af_free_packet_def)
        with z nf pw None show ?thesis by (simp add: running_pulls.upstream_fails)
      next
        case (Some q)
        obtain l n bytes where en: "lame_encode_buffer_float w (lame h) q (out_bufsize h) = (l, n, bytes)"
          by (metis prod_cases3)
        let ?out = "out\<lparr>dts := sint (last_sample h), psize := n, data := bytes\<rparr>"
        from body z nf fr pw Some en have rec: "loop w (after_pull h u q l) ?out = Some y"
          by (simp add: pull_window_def after_pull_def)
        from IH [OF rec] out
        have ih: "if n \<noteq> 0 then y = (after_pull h u q l, Some ?out)
                  else running_pulls w (after_pull h u q l) y"
          by simp
        have oeq: "?out = calloc_packet\<lparr>dts := sint (last_sample h), psize := n, data := bytes\<rparr>"
          using out by (simp add: calloc_packet_def)
        show ?thesis
        proof (cases "n = 0")
          case True
          with ih en nf pw Some z show ?thesis
            by (auto intro: running_pulls.pull_again)
        next
          case False
          with ih en nf pw Some z oeq show ?thesis
            by (auto intro: running_pulls.encoded)
        qed
      qed
    qed
  qed
  qed
qed

lemma running_pulls_computed:
  assumes "running_pulls w h r"
  shows "psize out = 0 \<Longrightarrow> flags out = {} \<Longrightarrow> samplecount out = 0 \<Longrightarrow> encode_loop w h out = Some r"
  using assms
proof (induction arbitrary: out rule: running_pulls.induct)
  case (end_of_stream h p)
  then show ?case
    by (subst encode_loop.simps) (simp add: holds_eof_def error_exit_def af_free_packet_def)
next
  case (upstream_fails h u)
  then show ?case
    by (subst encode_loop.simps)
       (auto simp: holds_eof_def error_exit_def af_free_packet_def pull_window_def
             split: packet_ref.splits)
next
  case (encoded h u q l n bytes)
  have "out\<lparr>dts := sint (last_sample h), psize := n, data := bytes\<rparr> =
        calloc_packet\<lparr>dts := sint (last_sample h), psize := n, data := bytes\<rparr>"
    using encoded.prems by (simp add: calloc_packet_def)
  with encoded show ?case
    apply (subst encode_loop.simps)
    apply (subst encode_loop.simps)
    by (auto simp: holds_eof_def af_free_packet_def pull_window_def after_pull_def
             split: packet_ref.splits)
next
  case (pull_again h u q l bytes r)
  from pull_again.IH [of "out\<lparr>dts := sint (last_sample h), psize := 0, data := bytes\<rparr>"] pull_again.prems
  have "encode_loop w (after_pull h u q l) (out\<lparr>dts := sint (last_sample h), psize := 0, data := bytes\<rparr>) = Some r"
    by simp
  with pull_again.hyps pull_again.prems show ?case
    by (subst encode_loop.simps)
       (auto simp: holds_eof_def af_free_packet_def pull_window_def after_pull_def
             split: packet_ref.splits)
qed

lemma running_pulls_in_pkt:
  assumes "running_pulls w h r"
  shows "case r of (h', None) \<Rightarrow> in_pkt h' = Null \<or> in_pkt h' = Dangling
         | (h', Some out) \<Rightarrow> \<exists>p. in_pkt h' = Live p"
  using assms by (induction rule: running_pulls.induct) (simp_all add: after_pull_def)

lemma get_next_packet_running:
  assumes "finishing h = 0" and "get_next_packet w h = Some r"
  shows "running_pulls w h r"
proof -
  from assms have "encode_loop w h calloc_packet = Some r" by (simp add: get_next_packet_def)
  from encode_loop_refines [OF this] show ?thesis by (simp add: calloc_packet_def)
qed

lemmas enc_eval =
  get_next_packet_def encode_loop.simps holds_eof_def af_free_packet_def error_exit_def
  finish_def calloc_packet_def demo_world_def demo_enc_def demo_enc1_def demo_enc2_def
  demo_out_def Let_def

section \<open>The claims about the encoder adapter\<close>

text \<open>
  Claim C7 (the running loop). In the Running state (\<open>finishing = 0\<close>) a call of
  \<^verbatim>\<open>get_next_packet\<close> returns \<open>r\<close> exactly when \<open>running_pulls\<close> relates the adapter to \<open>r\<close>:
  it pulls the window \<open>[last_sample, last_sample + framelen)\<close> from upstream, each pull that
  succeeds adds the \<open>samplecount\<close> of the packet it returned to \<open>last_sample\<close>, a pull whose
  encode call returns zero is followed by another pull and no empty packet is returned,
  and the call ends with the first encode result that is not zero, or with the end
  signal when the packet held carries the end-of-stream flag or upstream fails. A call
  that goes on for ever returns nothing on either side.
\<close>

theorem running_loop:
  assumes "finishing h = 0"
  shows "get_next_packet w h = Some r \<longleftrightarrow> running_pulls w h r"
proof
  assume "get_next_packet w h = Some r"
  with assms have "encode_loop w h calloc_packet = Some r" by (simp add: get_next_packet_def)
  from encode_loop_refines [OF this] show "running_pulls w h r"
    by (simp add: calloc_packet_def)
next
  assume "running_pulls w h r"
  from running_pulls_computed [OF this, of calloc_packet] assms
  show "get_next_packet w h = Some r"
    by (simp add: get_next_packet_def calloc_packet_def)
qed

text \<open>With \<open>demo_world\<close> the first call pulls twice: the first encode call returns
  nothing, the second returns three bytes.\<close>

theorem running_loop_witness:
  "finishing demo_enc = 0 \<and>
   get_next_packet demo_world demo_enc = Some (demo_enc1, Some demo_out) \<and>
   running_pulls demo_world demo_enc (demo_enc1, Some demo_out)"
proof -
  have a: "finishing demo_enc = 0" by (simp add: demo_enc_def)
  have b: "get_next_packet demo_world demo_enc = Some (demo_enc1, Some demo_out)"
    by (simp add: enc_eval)
  from running_loop [OF a, of demo_world "(demo_enc1, Some demo_out)"] a b
  show ?thesis by blast
qed

text \<open>
  Claim C9 (the precondition of \<^verbatim>\<open>finish\<close>). \<^verbatim>\<open>finish\<close> reads \<^verbatim>\<open>h->in->samplecount\<close>, so it
  returns exactly when \<^verbatim>\<open>h->in\<close> is a packet the adapter holds. After a
  \<^verbatim>\<open>get_next_packet\<close> that returned a packet (a pull has succeeded and the error path was
  not taken) that is so. After a \<^verbatim>\<open>get_next_packet\<close> that entered its loop and took the
  error path, \<^verbatim>\<open>h->in\<close> is \<^verbatim>\<open>NULL\<close> (upstream failed) or the address of the released packet
  (end of stream), and \<^verbatim>\<open>finish\<close> reads an absent or a released packet. A
  \<^verbatim>\<open>get_next_packet\<close> on an adapter that is finishing returns at once and changes nothing.
\<close>

theorem finish_precondition:
  "(finish w h \<noteq> None \<longleftrightarrow> (\<exists>p. in_pkt h = Live p)) \<and>
   (get_next_packet w h = Some (h', Some out) \<longrightarrow> (\<exists>p. in_pkt h' = Live p)) \<and>
   (finishing h = 0 \<and> get_next_packet w h = Some (h', None) \<longrightarrow>
      in_pkt h' = Null \<or> in_pkt h' = Dangling) \<and>
   (finishing h \<noteq> 0 \<longrightarrow> get_next_packet w h = Some (h, None))"
proof -
  have 1: "finish w h \<noteq> None \<longleftrightarrow> (\<exists>p. in_pkt h = Live p)"
    by (auto simp: finish_def Let_def split: packet_ref.splits prod.splits)
  have 2: "\<exists>p. in_pkt h' = Live p" if g: "get_next_packet w h = Some (h', Some out)"
  proof -
    from g have f0: "finishing h = 0" by (auto simp: get_next_packet_def split: if_splits)
    from running_pulls_in_pkt [OF get_next_packet_running [OF f0 g]] show ?thesis by simp
  qed
  have 3: "in_pkt h' = Null \<or> in_pkt h' = Dangling"
    if "finishing h = 0" and "get_next_packet w h = Some (h', None)"
    using running_pulls_in_pkt [OF get_next_packet_running [OF that]] by simp
  have 4: "get_next_packet w h = Some (h, None)" if "finishing h \<noteq> 0"
    using that by (simp add: get_next_packet_def)
  from 1 2 3 4 show ?thesis by blast
qed

text \<open>With \<open>demo_world\<close>: after the first call the packet is held and \<^verbatim>\<open>finish\<close> returns;
  the second call meets the end-of-stream flag and releases the packet, and \<^verbatim>\<open>finish\<close>
  on that state reads the released packet.\<close>

theorem finish_precondition_witness:
  "get_next_packet demo_world demo_enc = Some (demo_enc1, Some demo_out) \<and>
   (\<exists>p. in_pkt demo_enc1 = Live p) \<and> finish demo_world demo_enc1 \<noteq> None \<and>
   finishing demo_enc1 = 0 \<and> get_next_packet demo_world demo_enc1 = Some (demo_enc2, None) \<and>
   (in_pkt demo_enc2 = Null \<or> in_pkt demo_enc2 = Dangling) \<and>
   finish demo_world demo_enc2 = None \<and>
   finishing demo_enc2 \<noteq> 0 \<and> get_next_packet demo_world demo_enc2 = Some (demo_enc2, None)"
proof -
  have a: "get_next_packet demo_world demo_enc = Some (demo_enc1, Some demo_out)"
    by (simp add: enc_eval)
  have b: "finishing demo_enc1 = 0" and c: "finishing demo_enc2 \<noteq> 0"
    by (simp_all add: demo_enc1_def demo_enc2_def)
  have d: "get_next_packet demo_world demo_enc1 = Some (demo_enc2, None)"
    by (simp add: enc_eval)
  have e: "\<not> (\<exists>p. in_pkt demo_enc2 = Live p)"
    by (simp add: demo_enc2_def)
  note t0 = finish_precondition [of demo_world demo_enc demo_enc1 demo_out]
  note t1 = finish_precondition [of demo_world demo_enc1 demo_enc2 demo_out]
  note t2 = finish_precondition [of demo_world demo_enc2 demo_enc2 demo_out]
  from t0 a have 1: "\<exists>p. in_pkt demo_enc1 = Live p" by blast
  from t1 1 have 2: "finish demo_world demo_enc1 \<noteq> None" by blast
  from t1 b d have 3: "in_pkt demo_enc2 = Null \<or> in_pkt demo_enc2 = Dangling" by blast
  from t2 e have 4: "finish demo_world demo_enc2 = None" by blast
  from t2 c have 5: "get_next_packet demo_world demo_enc2 = Some (demo_enc2, None)" by blast
  from a 1 2 b d 3 4 c 5 show ?thesis by blast
qed

text \<open>
  Claim C10 (frame effect of \<^verbatim>\<open>skip_samples\<close>). \<open>skip_samples h n\<close> adds \<open>n\<close> to
  \<open>last_sample\<close> (in the 64-bit arithmetic of the two operands) and changes no other
  field: not \<open>finishing\<close>, the encoder, the capacity of the output buffer, the packet
  held or the packet count, nor the upstream state (nothing is pulled) and the frame
  length.
\<close>

theorem skip_samples_frame:
  "last_sample (skip_samples h n) = last_sample h + n \<and>
   finishing (skip_samples h n) = finishing h \<and>
   lame (skip_samples h n) = lame h \<and>
   out_bufsize (skip_samples h n) = out_bufsize h \<and>
   in_pkt (skip_samples h n) = in_pkt h \<and>
   packet_count (skip_samples h n) = packet_count h \<and>
   filter_chain (skip_samples h n) = filter_chain h \<and>
   framelen (skip_samples h n) = framelen h"
  by (simp add: skip_samples_def)

end
